theory Spec2Isabelle
  imports Complex_Main "HOL-Library.Log_Nat"
begin

section \<open>The reading session of \<open>use-epub-reader.ts\<close>\<close>

text \<open>
  The hook \<open>useEpubReader\<close> keeps its state in React state cells, jotai atoms and
  \<open>localStorage\<close>. Each callback of the hook is embedded as a function from the
  cells it reads to the cells it writes. JavaScript numbers are embedded as
  doubles with their rounding, document text as sequences of UTF-16 code units,
  arrays as lists. A thrown \<open>Error\<close> is a value of \<open>reader_error\<close>.
\<close>

datatype reader_error =
    CopyLimitExceeded              \<comment> \<open>\<open>new Error("Copy limit exceeded")\<close>\<close>
  | ClipboardWriteFailed           \<comment> \<open>rejection of \<open>navigator.clipboard.writeText\<close>\<close>
  | InvalidCopyAllowancePercentage \<comment> \<open>\<open>new Error("Invalid copyAllowancePercentage")\<close>\<close>
  | JsonSyntaxError                \<comment> \<open>\<open>SyntaxError\<close> of \<open>JSON.parse\<close>\<close>

subsection \<open>JavaScript numbers\<close>

text \<open>
  A JavaScript number is an IEEE 754 double: a finite value, an infinity or \<open>NaN\<close>.
  Finite values are carried as reals; every arithmetic operation computes the
  exact result and rounds it to the nearest double, ties to even (\<open>fl\<close>), and a
  result that rounds to magnitude \<open>2^1024\<close> or more (binade 1024 or more) overflows to an
  infinity.
  \<open>binade x\<close> is the exponent of the power of two at or below \<open>|x|\<close>, and
  \<open>quantum x\<close> the spacing of the doubles around \<open>x\<close>: \<open>2^(binade x - 52)\<close>, and
  \<open>2^(-1074)\<close> in the subnormal range. The sign of zero is not kept: no operation
  embedded here divides by a value that can be zero, and comparisons do not see
  it.
\<close>

definition binade :: "real \<Rightarrow> int" where
  "binade x = (if 1 \<le> \<bar>x\<bar> then bitlen \<lfloor>\<bar>x\<bar>\<rfloor> - 1 else - bitlen (\<lceil>1 / \<bar>x\<bar>\<rceil> - 1))"

definition pow2 :: "int \<Rightarrow> real" where
  "pow2 e = (if 0 \<le> e then 2 ^ nat e else 1 / 2 ^ nat (- e))"

definition quantum :: "real \<Rightarrow> real" where
  "quantum x = pow2 (max (binade x) (- 1022) - 52)"

definition roundTiesToEven :: "real \<Rightarrow> int" where
  "roundTiesToEven y =
     (let f = \<lfloor>y\<rfloor> in
      if y - of_int f < 1 / 2 then f
      else if y - of_int f > 1 / 2 then f + 1
      else if even f then f else f + 1)"

definition fl :: "real \<Rightarrow> real" where
  "fl x = (if x = 0 then 0 else of_int (roundTiesToEven (x / quantum x)) * quantum x)"

datatype number = Num real | PosInfinity | NegInfinity | NaN

definition toNumber :: "real \<Rightarrow> number" where
  "toNumber x =
     (let y = fl x in
      if 1024 \<le> binade y then (if 0 < y then PosInfinity else NegInfinity) else Num y)"

fun sign_of :: "number \<Rightarrow> real" where
  "sign_of (Num x) = sgn x"
| "sign_of PosInfinity = 1"
| "sign_of NegInfinity = - 1"
| "sign_of NaN = 0"

definition infinity_of :: "real \<Rightarrow> number" where
  "infinity_of s = (if 0 < s then PosInfinity else if s < 0 then NegInfinity else NaN)"

text \<open>The operators \<open>*\<close>, \<open>/\<close>, \<open>+\<close>, \<open>>\<close> and \<open><\<close> on numbers.\<close>

fun num_mul :: "number \<Rightarrow> number \<Rightarrow> number" where
  "num_mul NaN b = NaN"
| "num_mul a NaN = NaN"
| "num_mul (Num x) (Num y) = toNumber (x * y)"
| "num_mul a b = infinity_of (sign_of a * sign_of b)"

fun num_div :: "number \<Rightarrow> number \<Rightarrow> number" where
  "num_div NaN b = NaN"
| "num_div a NaN = NaN"
| "num_div (Num x) (Num y) = (if y = 0 then infinity_of (sgn x) else toNumber (x / y))"
| "num_div (Num x) b = Num 0"
| "num_div a (Num y) = infinity_of (sign_of a * (if y < 0 then - 1 else 1))"
| "num_div a b = NaN"

fun num_add :: "number \<Rightarrow> number \<Rightarrow> number" where
  "num_add NaN b = NaN"
| "num_add a NaN = NaN"
| "num_add (Num x) (Num y) = toNumber (x + y)"
| "num_add (Num x) b = b"
| "num_add a (Num y) = a"
| "num_add a b = (if a = b then a else NaN)"

declare num_mul.simps [simp del] num_div.simps [simp del] num_add.simps [simp del]

fun num_gt :: "number \<Rightarrow> number \<Rightarrow> bool" where
  "num_gt NaN b = False"
| "num_gt a NaN = False"
| "num_gt (Num x) (Num y) = (x > y)"
| "num_gt PosInfinity b = (b \<noteq> PosInfinity)"
| "num_gt a PosInfinity = False"
| "num_gt NegInfinity b = False"
| "num_gt a NegInfinity = True"

definition num_lt :: "number \<Rightarrow> number \<Rightarrow> bool" where
  "num_lt a b = num_gt b a"

subsection \<open>Copy quota\<close>

text \<open>
  The atoms \<open>totalBookCharsAtom\<close>, \<open>copiedCharsAtom\<close>, \<open>copyAllowancePercentageAtom\<close>,
  the entry \<open>STORAGE_KEY_COPIED_CHARS\<close> of \<open>localStorage\<close> (the number that
  \<open>JSON.stringify\<close> wrote, if any) and the content of the system clipboard.
\<close>

record copy_state =
  totalBookChars :: number
  copiedChars :: number
  copyAllowance :: number
  stored_copied_chars :: "number option"
  clipboard :: "string option"

text \<open>
  \<open>copyText\<close> is made by \<open>useCallback\<close>: the callback reads \<open>totalBookChars\<close>,
  \<open>copiedChars\<close> and \<open>copyAllowance\<close> as they were at the render that made it, while
  the updater given to \<open>setCopiedChars\<close> receives the atom's value of the moment.
  \<open>render\<close> takes the snapshot that a render hands to the callback.
\<close>

record copy_closure =
  c_totalBookChars :: number
  c_copiedChars :: number
  c_copyAllowance :: number

definition render :: "copy_state \<Rightarrow> copy_closure" where
  "render s =
     \<lparr>c_totalBookChars = totalBookChars s, c_copiedChars = copiedChars s,
      c_copyAllowance = copyAllowance s\<rparr>"

text \<open>
  \<open>navigator.clipboard.writeText(text)\<close>: the browser either grants the write or
  rejects the promise; which one is the environment's choice \<open>granted\<close>.
\<close>

definition writeText :: "bool \<Rightarrow> string \<Rightarrow> copy_state \<Rightarrow> reader_error option \<times> copy_state" where
  "writeText granted text s =
     (if granted then (None, s\<lparr>clipboard := Some text\<rparr>) else (Some ClipboardWriteFailed, s))"

text \<open>
  \<open>copyText\<close> (lines 231-262), called on the callback with snapshot \<open>c\<close> in state \<open>s\<close>.
  The result pairs the error thrown to the caller, if any, with the state left
  behind. In unprotected mode a clipboard rejection is caught and logged; in
  protected mode it is re-thrown.
\<close>

definition copyText ::
  "bool \<Rightarrow> bool \<Rightarrow> copy_closure \<Rightarrow> string \<Rightarrow> copy_state \<Rightarrow> reader_error option \<times> copy_state" where
  "copyText isCopyProtected granted c text s =
     (if \<not> isCopyProtected then (None, snd (writeText granted text s))
      else
        let allowedChars = num_div (num_mul (c_totalBookChars c) (c_copyAllowance c)) (Num 100) in
        if num_gt (num_add (c_copiedChars c) (Num (real (length text)))) allowedChars
        then (Some CopyLimitExceeded, s)
        else
          (case writeText granted text s of
             (Some err, s') \<Rightarrow> (Some err, s')
           | (None, s') \<Rightarrow>
               let newCopiedChars = num_add (copiedChars s') (Num (real (length text))) in
               (None, s'\<lparr>copiedChars := newCopiedChars,
                         stored_copied_chars := Some newCopiedChars\<rparr>)))"

text \<open>
  The effect of lines 213-221. The parameter \<open>copyAllowancePercentage\<close> defaults to
  10 when the caller leaves it out, so the test against \<open>undefined\<close> always passes.
\<close>

definition copyAllowanceEffect :: "number option \<Rightarrow> copy_state \<Rightarrow> reader_error + copy_state" where
  "copyAllowanceEffect arg s =
     (let copyAllowancePercentage = (case arg of None \<Rightarrow> Num 10 | Some p \<Rightarrow> p) in
      if num_lt copyAllowancePercentage (Num 0) \<or> num_gt copyAllowancePercentage (Num 100)
      then Inl InvalidCopyAllowancePercentage
      else Inr (s\<lparr>copyAllowance := copyAllowancePercentage\<rparr>))"

text \<open>
  The document of the quota scenario: 400 characters, allowance 10 percent. A
  second document of 1000 characters has the allowance that the literal \<open>33.3\<close>
  denotes, the double \<open>2343279181116211 / 2^46\<close> (\<open>2^46 = 70368744177664\<close>), a little below 33.3.
\<close>

definition scenario_quota :: copy_state where
  "scenario_quota =
     \<lparr>totalBookChars = Num 400, copiedChars = Num 0, copyAllowance = Num 10,
      stored_copied_chars = None, clipboard = None\<rparr>"


definition chars_of_length :: "nat \<Rightarrow> string" where
  "chars_of_length n = replicate n (CHR ''x'')"

subsection \<open>Highlights, bookmarks and notes\<close>

datatype HighlightType = HighlightKind | UnderlineKind

text \<open>
  The type \<open>Highlight\<close> of the source; \<open>type\<close> and \<open>color\<close> are optional there.
  The optional \<open>id\<close> and \<open>rect\<close> are never read or written by the callbacks
  embedded here and are left out.
\<close>

record highlight =
  h_cfi :: string
  h_text :: string
  h_type :: "HighlightType option"
  h_color :: "string option"
  h_createdAt :: string

record bookmark =
  b_cfi :: string
  b_label :: "string option"
  b_createdAt :: string
  b_chapter :: "string option"
  b_page :: "real option"

record note_entry =
  n_cfi :: string
  n_text :: string
  n_note :: string
  n_createdAt :: string

text \<open>
  The state cells \<open>highlights\<close>, \<open>bookmarks\<close>, \<open>notes\<close> (here \<open>note_list\<close>) and the three entries of
  \<open>localStorage\<close> that mirror them (\<open>None\<close>: the key is absent). The entries hold
  the stored text as it is; \<open>JSON.stringify\<close> and \<open>JSON.parse\<close> are parameters of the
  callbacks that call them, \<open>parse\<close> answering \<open>None\<close> where \<open>JSON.parse\<close> throws a
  \<open>SyntaxError\<close>. Calls that only paint or erase overlays on the rendition touch none
  of these cells and are left out.
\<close>

record annotation_state =
  highlights :: "highlight list"
  bookmarks :: "bookmark list"
  note_list :: "note_entry list"
  stored_highlights :: "string option"
  stored_bookmarks :: "string option"
  stored_notes :: "string option"

text \<open>\<open>addHighlight\<close> (lines 264-283); \<open>now\<close> is \<open>new Date().toISOString()\<close>.\<close>

definition addHighlight ::
  "(highlight list \<Rightarrow> string) \<Rightarrow> string \<Rightarrow> highlight \<Rightarrow> annotation_state \<Rightarrow> annotation_state" where
  "addHighlight stringify now arg s =
     (let type = (case h_type arg of None \<Rightarrow> HighlightKind | Some t \<Rightarrow> t);
          color = (case h_color arg of None \<Rightarrow> ''yellow'' | Some c \<Rightarrow> c);
          newHighlight = \<lparr>h_cfi = h_cfi arg, h_text = h_text arg, h_type = Some type,
                          h_color = Some color, h_createdAt = now\<rparr>;
          updated = highlights s @ [newHighlight]
      in s\<lparr>highlights := updated, stored_highlights := Some (stringify updated)\<rparr>)"

text \<open>\<open>removeHighlight\<close> (lines 285-331): the filter looks at \<open>cfi\<close> only.\<close>

definition removeHighlight ::
  "(highlight list \<Rightarrow> string) \<Rightarrow> string \<Rightarrow> HighlightType \<Rightarrow> annotation_state \<Rightarrow> annotation_state" where
  "removeHighlight stringify cfi type s =
     (let updated = filter (\<lambda>h. h_cfi h \<noteq> cfi) (highlights s)
      in s\<lparr>highlights := updated, stored_highlights := Some (stringify updated)\<rparr>)"

text \<open>
  The three loading effects (lines 1052-1090). An empty stored string is falsy and
  is skipped like an absent key. The highlights effect re-adds every parsed entry
  through \<open>addHighlight\<close> (passing \<open>cfi\<close>, \<open>text\<close>, \<open>color\<close> and \<open>createdAt\<close>, not the type)
  and then sets the cell to the parsed list; a failure in its \<open>try\<close> block is caught
  and logged, as in the bookmarks effect. The notes effect returns at once while
  the rendition does not exist, and calls \<open>JSON.parse\<close> outside any \<open>try\<close> block.
\<close>

definition loadSavedHighlights ::
  "(string \<Rightarrow> highlight list option) \<Rightarrow> (highlight list \<Rightarrow> string) \<Rightarrow> string
     \<Rightarrow> annotation_state \<Rightarrow> reader_error + annotation_state" where
  "loadSavedHighlights parse stringify now s =
     (case stored_highlights s of
        None \<Rightarrow> Inr s
      | Some savedHighlights \<Rightarrow>
          if savedHighlights = [] then Inr s
          else (case parse savedHighlights of
                  None \<Rightarrow> Inr s
                | Some parsed \<Rightarrow>
                    Inr ((foldl (\<lambda>st h. addHighlight stringify now (h\<lparr>h_type := None\<rparr>) st) s parsed)
                           \<lparr>highlights := parsed\<rparr>)))"

definition loadSavedBookmarks ::
  "(string \<Rightarrow> bookmark list option) \<Rightarrow> annotation_state \<Rightarrow> reader_error + annotation_state" where
  "loadSavedBookmarks parse s =
     (case stored_bookmarks s of
        None \<Rightarrow> Inr s
      | Some savedBookmarks \<Rightarrow>
          if savedBookmarks = [] then Inr s
          else (case parse savedBookmarks of
                  None \<Rightarrow> Inr s
                | Some parsed \<Rightarrow> Inr (s\<lparr>bookmarks := parsed\<rparr>)))"

definition loadSavedNotes ::
  "(string \<Rightarrow> note_entry list option) \<Rightarrow> bool \<Rightarrow> annotation_state \<Rightarrow> reader_error + annotation_state" where
  "loadSavedNotes parse rendition s =
     (if \<not> rendition then Inr s
      else (case stored_notes s of
              None \<Rightarrow> Inr s
            | Some savedNotes \<Rightarrow>
                if savedNotes = [] then Inr s
                else (case parse savedNotes of
                        None \<Rightarrow> Inl JsonSyntaxError
                      | Some parsed \<Rightarrow> Inr (s\<lparr>note_list := parsed\<rparr>))))"

text \<open>
  The cells as \<open>useState\<close> initialises them on session start, over the storage the
  browser holds.
\<close>

definition initial_annotations :: "string option \<Rightarrow> string option \<Rightarrow> string option \<Rightarrow> annotation_state" where
  "initial_annotations sh sb sn =
     \<lparr>highlights = [], bookmarks = [], note_list = [],
      stored_highlights = sh, stored_bookmarks = sb, stored_notes = sn\<rparr>"

subsection \<open>JavaScript strings\<close>

text \<open>
  A JavaScript string is a sequence of UTF-16 code units, and \<open>length\<close> counts code
  units. Document text, queries and excerpts are carried as lists of code units;
  \<open>utf16\<close> gives the string of a literal of one-unit characters. Positions, hrefs,
  titles and colours are only stored and compared, and stay \<open>string\<close>.
\<close>

type_synonym jsstring = "nat list"

definition utf16 :: "string \<Rightarrow> jsstring" where
  "utf16 s = map of_char s"

subsection \<open>Selecting a search result\<close>

record search_result =
  r_cfi :: string
  r_excerpt :: jsstring
  r_href :: string
  r_chapterTitle :: string
  r_chapterIndex :: nat

text \<open>
  The cells \<open>searchResults\<close>, \<open>currentSearchResultIndex\<close>, \<open>selectedCfi\<close>,
  \<open>isSearching\<close>, and the positions that the rendition was asked to display, in
  order.
\<close>

record search_state =
  searchResults :: "search_result list"
  currentSearchResultIndex :: int
  selectedCfi :: string
  isSearching :: bool
  displayed :: "string list"

text \<open>
  \<open>goToSearchResult\<close> (lines 621-631); \<open>rendition\<close> says whether
  \<open>renditionRef.current\<close> exists, the call on it being optional.
\<close>

definition goToSearchResult :: "bool \<Rightarrow> int \<Rightarrow> search_state \<Rightarrow> search_state" where
  "goToSearchResult rendition index s =
     (if index \<ge> 0 \<and> index < int (length (searchResults s)) then
        let result = searchResults s ! nat index in
        s\<lparr>displayed := (if rendition then displayed s @ [r_cfi result] else displayed s),
          selectedCfi := r_cfi result,
          currentSearchResultIndex := index\<rparr>
      else s)"

subsection \<open>Searching the book\<close>

text \<open>
  \<open>String.prototype.trim\<close> drops from both ends the code units that are white
  space or line terminators: tab, line feed, vertical tab, form feed, carriage
  return, space, no-break space, U+1680, U+2000 to U+200A, U+2028, U+2029, U+202F,
  U+205F, U+3000 and U+FEFF.
\<close>

definition isWhiteSpace :: "nat \<Rightarrow> bool" where
  "isWhiteSpace c \<longleftrightarrow>
     c \<in> {9, 10, 11, 12, 13, 32, 160, 5760, 8232, 8233, 8239, 8287, 12288, 65279}
     \<or> (8192 \<le> c \<and> c \<le> 8202)"

definition trim :: "jsstring \<Rightarrow> jsstring" where
  "trim s = rev (dropWhile isWhiteSpace (rev (dropWhile isWhiteSpace s)))"

text \<open>
  \<open>String.prototype.indexOf(searchString, position)\<close>: the smallest index at or after
  \<open>position\<close> (clamped to the length) at which \<open>searchString\<close> occurs, \<open>None\<close> for
  \<open>-1\<close>. \<open>String.prototype.substring(indexStart, indexEnd)\<close> clamps both indices to
  the length and swaps them when they are out of order.
\<close>

definition indexOf :: "jsstring \<Rightarrow> jsstring \<Rightarrow> nat \<Rightarrow> nat option" where
  "indexOf s searchString position =
     find (\<lambda>k. take (length searchString) (drop k s) = searchString)
          [min position (length s) ..< Suc (length s)]"

definition substring :: "jsstring \<Rightarrow> nat \<Rightarrow> nat \<Rightarrow> jsstring" where
  "substring s indexStart indexEnd =
     (let a = min indexStart (length s); b = min indexEnd (length s)
      in take (max a b - min a b) (drop (min a b) s))"

text \<open>
  What the environment supplies: \<open>String.prototype.toLowerCase\<close> of the
  JavaScript engine (the Unicode lower-casing, which may change the length of a
  string), \<open>item.cfiFromRange(range)\<close>, as a function of the chapter, the text node
  and the two offsets of the range, and \<open>getChapterFromCfi(book, cfi)\<close> (\<open>None\<close> for
  \<open>null\<close>). A spine item has its href and, once loaded, its document, given by
  the \<open>textContent\<close> of its text nodes in tree order; \<open>None\<close> stands for an item
  whose \<open>load\<close> rejects or whose document is missing, which contributes no result.
\<close>

record host =
  toLowerCase :: "jsstring \<Rightarrow> jsstring"
  cfiFromRange :: "nat \<Rightarrow> nat \<Rightarrow> nat \<Rightarrow> nat \<Rightarrow> string"
  getChapterFromCfi :: "string \<Rightarrow> string option"

record spine_item =
  si_href :: string
  si_document :: "jsstring list option"

text \<open>
  The inner loop of lines 570-579: walk the text nodes until the flat offset falls
  inside one. The result is the pair of \<open>offset\<close> and \<open>nodeIndex\<close> at loop exit.
\<close>

function findNode :: "jsstring list \<Rightarrow> nat \<Rightarrow> nat \<Rightarrow> nat \<times> nat" where
  "findNode textNodes offset nodeIndex =
     (if nodeIndex < length textNodes then
        let nodeText = textNodes ! nodeIndex in
        if offset < length nodeText then (offset, nodeIndex)
        else findNode textNodes (offset - length nodeText) (nodeIndex + 1)
      else (offset, nodeIndex))"
  by pat_completeness auto
termination
  by (relation "measure (\<lambda>(textNodes, offset, nodeIndex). length textNodes - nodeIndex)") auto

declare findNode.simps [simp del]

text \<open>
  \<open>range.setStart(node, offset)\<close> and \<open>range.setEnd(node, offset)\<close> of the DOM throw an
  \<open>IndexSizeError\<close> when the offset is greater than the length of the node; otherwise
  the range is built.
\<close>

definition rangeWithin :: "jsstring \<Rightarrow> nat \<Rightarrow> nat \<Rightarrow> bool" where
  "rangeWithin nodeText startOffset endOffset \<longleftrightarrow>
     startOffset \<le> length nodeText \<and> endOffset \<le> length nodeText"

text \<open>
  The body of the scan loop for a match at flat offset \<open>pos\<close> (lines 570-602): the
  result that is pushed, or \<open>None\<close> when nothing is pushed, because no node holds the
  offset or because building the range throws and the \<open>catch\<close> logs
  \<open>Invalid range during search\<close>.
\<close>

definition matchResult ::
  "host \<Rightarrow> string \<Rightarrow> nat \<Rightarrow> jsstring list \<Rightarrow> jsstring \<Rightarrow> jsstring \<Rightarrow> nat \<Rightarrow> search_result option" where
  "matchResult h href chapterIndex textNodes fullText trimmedQuery pos =
     (case findNode textNodes pos 0 of
        (offset, nodeIndex) \<Rightarrow>
          if nodeIndex < length textNodes then
            if rangeWithin (textNodes ! nodeIndex) offset (offset + length trimmedQuery) then
              let cfi = cfiFromRange h chapterIndex nodeIndex offset (offset + length trimmedQuery);
                  excerpt = substring fullText (pos - 30) (pos + length trimmedQuery + 30);
                  chapterTitle = getChapterFromCfi h cfi
              in Some \<lparr>r_cfi = cfi, r_excerpt = utf16 ''...'' @ excerpt @ utf16 ''...'', r_href = href,
                       r_chapterTitle = (case chapterTitle of None \<Rightarrow> [] | Some t \<Rightarrow> t),
                       r_chapterIndex = chapterIndex\<rparr>
            else None
          else None)"

text \<open>
  The scan loop \<open>while (pos !== -1)\<close> of lines 568-605, with the results pushed so
  far. With an empty query the JavaScript loop would not end (\<open>indexOf\<close> of the empty
  string stays at the length of the text), so the loop is a partial function and
  not returning is the value \<open>None\<close>.
\<close>

partial_function (option) scanLoop ::
  "host \<Rightarrow> string \<Rightarrow> nat \<Rightarrow> jsstring list \<Rightarrow> jsstring \<Rightarrow> jsstring \<Rightarrow> nat option
     \<Rightarrow> search_result list \<Rightarrow> search_result list option" where
  "scanLoop h href chapterIndex textNodes fullText trimmedQuery pos results =
     (case pos of
        None \<Rightarrow> Some results
      | Some p \<Rightarrow>
          scanLoop h href chapterIndex textNodes fullText trimmedQuery
            (indexOf fullText trimmedQuery (p + 1))
            (case matchResult h href chapterIndex textNodes fullText trimmedQuery p of
               None \<Rightarrow> results
             | Some r \<Rightarrow> results @ [r]))"

declare scanLoop.simps [code]

text \<open>
  One chapter task (the callback of \<open>spineItems.map\<close>, lines 552-611): the results
  it pushes, in the order it pushes them.
\<close>

definition searchChapter :: "host \<Rightarrow> jsstring \<Rightarrow> nat \<Rightarrow> spine_item \<Rightarrow> search_result list option" where
  "searchChapter h trimmedQuery chapterIndex item =
     (case si_document item of
        None \<Rightarrow> Some []
      | Some textNodes \<Rightarrow>
          let fullText = toLowerCase h (concat textNodes) in
          scanLoop h (si_href item) chapterIndex textNodes fullText trimmedQuery
            (indexOf fullText trimmedQuery 0) [])"

text \<open>
  All chapter tasks push into the one array \<open>results\<close>, and every task waits
  (for its chapter to load, and for \<open>getChapterFromCfi\<close> before each push), so the
  pushes of different tasks interleave as the host resolves the promises. The
  \<open>schedule\<close> names, push by push, the task that pushes next; \<open>pending\<close> holds for
  each task the results it has still to push. A task named when it has nothing
  left is passed over, and since \<open>Promise.all\<close> waits for every task, the tasks that
  the schedule leaves unfinished push the rest in spine order.
\<close>

fun publish :: "nat list \<Rightarrow> 'a list list \<Rightarrow> 'a list \<Rightarrow> 'a list" where
  "publish [] pending results = results @ concat pending"
| "publish (task # schedule) pending results =
     (if task < length pending then
        (case pending ! task of
           [] \<Rightarrow> publish schedule pending results
         | r # rest \<Rightarrow> publish schedule (pending[task := rest]) (results @ [r]))
      else publish schedule pending results)"

text \<open>
  \<open>searchBook\<close> (lines 525-619). \<open>spine\<close> is \<open>None\<close> when the book or its spine is not
  there yet. The early returns leave \<open>isSearching\<close> set.
\<close>

definition searchBook ::
  "host \<Rightarrow> nat list \<Rightarrow> jsstring \<Rightarrow> spine_item list option \<Rightarrow> search_state \<Rightarrow> search_state option" where
  "searchBook h schedule query spine s =
     (let s = s\<lparr>isSearching := True\<rparr> in
      case spine of
        None \<Rightarrow> Some (s\<lparr>searchResults := [], currentSearchResultIndex := -1\<rparr>)
      | Some spineItems \<Rightarrow>
          if query = [] then Some (s\<lparr>searchResults := [], currentSearchResultIndex := -1\<rparr>)
          else
            let trimmedQuery = toLowerCase h (trim query) in
            if trimmedQuery = [] then Some (s\<lparr>searchResults := [], currentSearchResultIndex := -1\<rparr>)
            else if spineItems = [] then Some (s\<lparr>searchResults := [], currentSearchResultIndex := -1\<rparr>)
            else
              (case those (map (\<lambda>(chapterIndex, item). searchChapter h trimmedQuery chapterIndex item)
                               (enumerate 0 spineItems)) of
                 None \<Rightarrow> None
               | Some pushes \<Rightarrow>
                   let results = publish schedule pushes [] in
                   Some (s\<lparr>searchResults := results,
                           currentSearchResultIndex := (if length results > 0 then 0 else -1),
                           isSearching := False\<rparr>)))"

text \<open>
  The vocabulary of the claims about search. The occurrences of a query in a
  buffer are the offsets at which it occurs, in ascending order, overlapping ones
  included. The text node \<open>j\<close> of a chapter covers the offsets from \<open>startOf j\<close> up to
  \<open>startOf (j + 1)\<close> of the buffer, and an occurrence lies within one node when
  some node covers all of it. \<open>chapterResults\<close> lists, in the order of the
  occurrences, the results of those occurrences of a chapter that yield one.
  \<open>tagged\<close> says that the results pending for task \<open>j\<close> carry the index \<open>j\<close>, and a
  schedule is complete for the pending results when it names every task exactly
  as often as the task has results to push.
\<close>

definition occurrences :: "jsstring \<Rightarrow> jsstring \<Rightarrow> nat list" where
  "occurrences fullText q =
     filter (\<lambda>k. take (length q) (drop k fullText) = q) [0 ..< Suc (length fullText)]"

definition startOf :: "jsstring list \<Rightarrow> nat \<Rightarrow> nat" where
  "startOf textNodes j = length (concat (take j textNodes))"

definition withinOneNode :: "jsstring list \<Rightarrow> jsstring \<Rightarrow> nat \<Rightarrow> bool" where
  "withinOneNode textNodes q p \<longleftrightarrow>
     (\<exists>j \<in> {..< length textNodes}.
        startOf textNodes j \<le> p \<and> p + length q \<le> startOf textNodes (Suc j))"

definition chapterResults :: "host \<Rightarrow> jsstring \<Rightarrow> nat \<Rightarrow> spine_item \<Rightarrow> search_result list" where
  "chapterResults h q chapterIndex item =
     (case si_document item of
        None \<Rightarrow> []
      | Some textNodes \<Rightarrow>
          List.map_filter
            (matchResult h (si_href item) chapterIndex textNodes (toLowerCase h (concat textNodes)) q)
            (occurrences (toLowerCase h (concat textNodes)) q))"

definition tagged :: "('a \<Rightarrow> nat) \<Rightarrow> 'a list list \<Rightarrow> bool" where
  "tagged tag pending \<longleftrightarrow> (\<forall>j < length pending. \<forall>r \<in> set (pending ! j). tag r = j)"

definition complete_schedule :: "nat list \<Rightarrow> 'a list list \<Rightarrow> bool" where
  "complete_schedule schedule pending \<longleftrightarrow>
     (\<forall>k \<in> set schedule. k < length pending)
     \<and> (\<forall>k \<in> set [0 ..< length pending]. count_list schedule k = length (pending ! k))"

subsection \<open>Table of contents\<close>

text \<open>
  A \<open>NavItem\<close> of the table of contents with its label, href and subitems (an
  absent \<open>subitems\<close> is the empty list: the source treats both alike), and the
  item with the estimated \<open>page\<close> added, \<open>None\<close> where the source leaves it
  \<open>undefined\<close>.
\<close>

datatype nav_item = NavItem (nav_label: string) (nav_href: string) (subitems: "nav_item list")

datatype enhanced_nav_item =
  EnhancedNavItem (e_label: string) (e_href: string) (page: "number option")
    (e_subitems: "enhanced_nav_item list")

text \<open>\<open>Math.floor\<close>.\<close>

fun Math_floor :: "number \<Rightarrow> number" where
  "Math_floor (Num x) = Num (of_int \<lfloor>x\<rfloor>)"
| "Math_floor a = a"

text \<open>
  The \<open>try\<close> block of \<open>enhanceItem\<close> (lines 499-508). \<open>locations\<close> is what
  \<open>book.locations?.length()\<close> gives while this entry is estimated: \<open>None\<close> when the
  book has no locations object or the call throws (the \<open>catch\<close> logs and leaves
  \<open>page\<close> undefined). \<open>tocLength\<close> is \<open>tocItems.length\<close>, the number of top-level
  items of the list given to \<open>enhanceTocWithPages\<close>.
\<close>

definition estimatePage :: "nat \<Rightarrow> nat option \<Rightarrow> nat \<Rightarrow> number option" where
  "estimatePage tocLength locations index =
     (case locations of
        None \<Rightarrow> None
      | Some len \<Rightarrow>
          if len > 0 then
            let page = num_add
                         (Math_floor (num_mul (num_div (Num (real index)) (Num (real tocLength)))
                                              (Num (real len))))
                         (Num 1);
                page = (if num_lt page (Num 1) then Num 1 else page);
                page = (if num_gt page (Num (real len)) then Num (real len) else page)
            in Some page
          else None)"

text \<open>
  \<open>enhanceItem\<close> and \<open>enhanceTocWithPages\<close> (lines 495-523). Every entry has its own
  \<open>try\<close> block, so the outcome of \<open>book.locations?.length()\<close> is taken per entry:
  \<open>locations item index\<close> is the outcome while \<open>item\<close> is estimated at \<open>index\<close>.
\<close>

function enhanceItem ::
  "nat \<Rightarrow> (nav_item \<Rightarrow> nat \<Rightarrow> nat option) \<Rightarrow> nav_item \<Rightarrow> nat \<Rightarrow> enhanced_nav_item" where
  "enhanceItem tocLength locations (NavItem label href subs) index =
     EnhancedNavItem label href
       (estimatePage tocLength (locations (NavItem label href subs) index) index)
       (map (\<lambda>(subIndex, subitem). enhanceItem tocLength locations subitem (index + subIndex + 1))
            (enumerate 0 subs))"
  by pat_completeness auto
termination
proof (relation "measure (\<lambda>(tocLength, locations, item, index). size item)")
  show "wf (measure (\<lambda>(tocLength, locations, item, index). size item))" by simp
next
  fix tocLength :: nat and locations :: "nav_item \<Rightarrow> nat \<Rightarrow> nat option" and label href :: string
    and subs :: "nav_item list" and index :: nat and x :: "nat \<times> nav_item" and subIndex subitem
  assume "x \<in> set (enumerate 0 subs)" and "(subIndex, subitem) = x"
  then have "subitem \<in> set subs"
    by (auto simp: in_set_enumerate_eq)
  then have "size subitem < Suc (size_list size subs)"
    by (induction subs) auto
  then show "((tocLength, locations, subitem, index + subIndex + 1),
              (tocLength, locations, NavItem label href subs, index))
             \<in> measure (\<lambda>(tocLength, locations, item, index). size item)"
    by simp
qed

definition enhanceTocWithPages ::
  "(nav_item \<Rightarrow> nat \<Rightarrow> nat option) \<Rightarrow> nav_item list \<Rightarrow> enhanced_nav_item list" where
  "enhanceTocWithPages locations tocItems =
     map (\<lambda>(index, item). enhanceItem (length tocItems) locations item index)
         (enumerate 0 tocItems)"

text \<open>
  The claim's reading of the estimate, in the words of the specification: \<open>n\<close> counts
  every entry of the tree, nested ones included, and the entry at flat index \<open>i\<close>
  gets \<open>floor(i/n \<times> totalLocations) + 1\<close> clamped to \<open>[1, totalLocations]\<close>.
\<close>

fun spec_total_entries :: "nav_item \<Rightarrow> nat" where
  "spec_total_entries (NavItem label href subs) = Suc (sum_list (map spec_total_entries subs))"

definition spec_estimated_page :: "nat \<Rightarrow> nat \<Rightarrow> nat \<Rightarrow> int" where
  "spec_estimated_page n totalLocations i =
     max 1 (min (int totalLocations) (\<lfloor>real i / real n * real totalLocations\<rfloor> + 1))"

definition flat_toc :: "nav_item list" where
  "flat_toc = [NavItem ''One'' ''c1'' [], NavItem ''Two'' ''c2'' [],
               NavItem ''Three'' ''c3'' [], NavItem ''Four'' ''c4'' []]"

definition nested_toc :: "nav_item list" where
  "nested_toc = [NavItem ''Part'' ''p1'' [NavItem ''Chapter'' ''p1c1'' []]]"

definition ten_toc :: "nav_item list" where
  "ten_toc = map (\<lambda>k. NavItem ''Chapter'' ''c'' []) [0 ..< 10]"

text \<open>
  A book whose locations are there for every entry, and one where the estimate of
  the entry at index 1 fails.
\<close>

definition all_locations :: "nat \<Rightarrow> nav_item \<Rightarrow> nat \<Rightarrow> nat option" where
  "all_locations len item index = Some len"

definition failing_at_1 :: "nat \<Rightarrow> nav_item \<Rightarrow> nat \<Rightarrow> nat option" where
  "failing_at_1 len item index = (if index = 1 then None else Some len)"

text \<open>Example data for the concrete instances below.\<close>

definition example_highlight :: highlight where
  "example_highlight =
     \<lparr>h_cfi = ''epubcfi(/6/4!/4/2,/1:0,/1:5)'', h_text = ''Hello'', h_type = None,
      h_color = None, h_createdAt = []\<rparr>"

definition example_underline :: highlight where
  "example_underline =
     \<lparr>h_cfi = ''epubcfi(/6/4!/4/2,/1:0,/1:5)'', h_text = ''Hello'', h_type = Some UnderlineKind,
      h_color = Some ''red'', h_createdAt = ''t0''\<rparr>"

definition example_elsewhere :: highlight where
  "example_elsewhere =
     \<lparr>h_cfi = ''epubcfi(/6/8!/4/2,/1:0,/1:3)'', h_text = ''Bye'', h_type = Some HighlightKind,
      h_color = Some ''yellow'', h_createdAt = ''t0''\<rparr>"

definition example_stringify :: "highlight list \<Rightarrow> string" where
  "example_stringify hs = concat (map h_cfi hs)"

definition example_results :: search_state where
  "example_results =
     \<lparr>searchResults =
        [\<lparr>r_cfi = ''cfi-a'', r_excerpt = utf16 ''...a...'', r_href = ''ch1.xhtml'',
          r_chapterTitle = ''One'', r_chapterIndex = 0\<rparr>,
         \<lparr>r_cfi = ''cfi-b'', r_excerpt = utf16 ''...b...'', r_href = ''ch2.xhtml'',
          r_chapterTitle = ''Two'', r_chapterIndex = 1\<rparr>],
      currentSearchResultIndex = 0, selectedCfi = ''cfi-a'', isSearching = False,
      displayed = []\<rparr>"

text \<open>
  On a string of ASCII characters \<open>String.prototype.toLowerCase\<close> maps \<open>A\<close> to \<open>Z\<close>
  to \<open>a\<close> to \<open>z\<close> and keeps everything else; the examples use an engine that does
  this on every string.
\<close>

definition asciiLowerCase :: "jsstring \<Rightarrow> jsstring" where
  "asciiLowerCase s = map (\<lambda>c. if 65 \<le> c \<and> c \<le> 90 then c + 32 else c) s"

definition example_host :: host where
  "example_host =
     \<lparr>toLowerCase = asciiLowerCase, cfiFromRange = (\<lambda>c n a b. ''cfi''),
      getChapterFromCfi = (\<lambda>cfi. None)\<rparr>"

definition example_spine :: "spine_item list" where
  "example_spine =
     [\<lparr>si_href = ''ch1.xhtml'', si_document = Some [utf16 ''A cat sat.'']\<rparr>,
      \<lparr>si_href = ''ch2.xhtml'', si_document = Some [utf16 ''Cat nap'']\<rparr>]"

definition split_chapter :: spine_item where
  "split_chapter =
     \<lparr>si_href = ''ch1.xhtml'', si_document = Some [utf16 ''the c'', utf16 ''ats category'']\<rparr>"

definition initial_search :: search_state where
  "initial_search =
     \<lparr>searchResults = [], currentSearchResultIndex = -1, selectedCfi = [], isSearching = False,
      displayed = []\<rparr>"

section \<open>Properties\<close>

subsection \<open>Copy quota\<close>

lemma roundTiesToEven_of_int: "roundTiesToEven (of_int k) = k"
  by (simp add: roundTiesToEven_def)

lemma pow2_pos: "0 < pow2 e"
  by (simp add: pow2_def)

lemma quantum_pos: "0 < quantum x"
  by (simp add: quantum_def pow2_pos)

lemma fl_exactI: "x = of_int k * quantum x \<Longrightarrow> fl x = x"
proof (cases "x = 0")
  case True
  then show ?thesis by (simp add: fl_def)
next
  case False
  assume x: "x = of_int k * quantum x"
  have "x / quantum x = of_int k"
    using quantum_pos [of x] by (subst (1) x) simp
  then have "roundTiesToEven (x / quantum x) = k"
    by (simp only: roundTiesToEven_of_int)
  with False x show ?thesis by (simp add: fl_def)
qed

lemma fl_nat_exact:
  assumes "n \<le> 2 ^ 53"
  shows "fl (real n) = real n"
proof (cases "n = 0")
  case True
  then show ?thesis by (simp add: fl_def)
next
  case False
  define b where "b = bitlen (int n)"
  from False have pos: "0 < int n" by simp
  from bitlen_bounds [OF pos]
  have lo: "2 ^ nat (b - 1) \<le> int n" and hi: "int n < 2 ^ nat b"
    unfolding b_def by simp_all
  from pos have b1: "1 \<le> b"
    unfolding b_def by (simp add: bitlen_alt_def)
  have "int n \<le> 2 ^ 53" using assms by (simp add: of_nat_le_iff [symmetric] del: of_nat_le_iff)
  with lo have "(2::int) ^ nat (b - 1) \<le> 2 ^ 53" by linarith
  then have "nat (b - 1) \<le> 53" by (rule power_le_imp_le_exp [rotated]) simp
  with b1 have b54: "b \<le> 54" by linarith
  from False have "1 \<le> \<bar>real n\<bar>" by simp
  then have bin: "binade (real n) = b - 1"
    by (simp add: binade_def b_def)
  have q: "quantum (real n) = pow2 (b - 53)"
    using b1 by (simp add: quantum_def bin max_def)
  show ?thesis
  proof (cases "b = 54")
    case True
    with lo have "2 ^ 53 \<le> int n" by simp
    with \<open>int n \<le> 2 ^ 53\<close> have n: "int n = 2 ^ 53" by linarith
    then have rn: "real n = 2 ^ 53"
      by (metis of_int_numeral of_int_of_nat_eq of_int_power)
    have "quantum (real n) = 2" using q True by (simp add: pow2_def)
    then have "real n = of_int (2 ^ 52) * quantum (real n)"
      by (simp add: rn)
    then show ?thesis by (rule fl_exactI)
  next
    case False
    with b54 have le: "b \<le> 53" by linarith
    then have "pow2 (b - 53) = 1 / 2 ^ nat (53 - b)"
      by (cases "b = 53") (simp_all add: pow2_def)
    with q have "real n = of_int (int n * 2 ^ nat (53 - b)) * quantum (real n)"
      by simp
    then show ?thesis by (rule fl_exactI)
  qed
qed

lemma binade_nat_bound: "n \<le> 2 ^ 53 \<Longrightarrow> binade (real n) \<le> 53"
proof (cases "n = 0")
  case True
  then show ?thesis by (simp add: binade_def bitlen_def floorlog_def)
next
  case False
  assume n: "n \<le> 2 ^ 53"
  from False have pos: "0 < int n" by simp
  from bitlen_bounds [OF pos] have lo: "2 ^ nat (bitlen (int n) - 1) \<le> int n" by simp
  have "int n \<le> 2 ^ 53" using n by (simp add: of_nat_le_iff [symmetric] del: of_nat_le_iff)
  with lo have "(2::int) ^ nat (bitlen (int n) - 1) \<le> 2 ^ 53" by linarith
  then have "nat (bitlen (int n) - 1) \<le> 53" by (rule power_le_imp_le_exp [rotated]) simp
  moreover from False have "1 \<le> \<bar>real n\<bar>" by simp
  ultimately show ?thesis by (simp add: binade_def)
qed

lemma toNumber_nat: "n \<le> 2 ^ 53 \<Longrightarrow> toNumber (real n) = Num (real n)"
  using binade_nat_bound [of n] by (simp add: toNumber_def fl_nat_exact Let_def)

lemma num_add_nat:
  "k + l \<le> 2 ^ 53 \<Longrightarrow> num_add (Num (real k)) (Num (real l)) = Num (real (k + l))"
  using toNumber_nat [of "k + l"] by (simp add: num_add.simps)

lemma copyText_denied:
  "num_gt (num_add (c_copiedChars c) (Num (real (length text))))
          (num_div (num_mul (c_totalBookChars c) (c_copyAllowance c)) (Num 100)) \<Longrightarrow>
   copyText True granted c text s = (Some CopyLimitExceeded, s)"
  by (simp add: copyText_def Let_def)

lemma copyText_denied_iff:
  "fst (copyText True granted c text s) = Some CopyLimitExceeded \<longleftrightarrow>
   num_gt (num_add (c_copiedChars c) (Num (real (length text))))
          (num_div (num_mul (c_totalBookChars c) (c_copyAllowance c)) (Num 100))"
  by (cases granted) (auto simp: copyText_def writeText_def Let_def)



lemma scenario_allowance: "num_div (num_mul (Num 400) (Num 10)) (Num 100) = Num 40"
  by code_simp


lemma scenario_sums:
  "num_add (Num 0) (Num (real (length (chars_of_length 30)))) = Num 30"
  "num_add (Num 30) (Num (real (length (chars_of_length 15)))) = Num 45"
  "num_add (Num 30) (Num (real (length (chars_of_length 10)))) = Num 40"
  "num_add (Num 30) (Num (real (length (chars_of_length 30)))) = Num 60"
  "num_add (Num 0) (Num (real (length (chars_of_length 333)))) = Num 333"
  by code_simp+










text \<open>
  Claim C8. In protected mode, a call of \<open>copyText\<close> that is refused with
  \<open>CopyLimitExceeded\<close> leaves the state as it was: the clipboard is not written
  and neither \<open>copiedChars\<close> nor its stored value changes. A call is refused
  whenever the count captured by the callback plus the length of the text exceeds
  the allowance (in the code's double arithmetic).
\<close>

theorem copyText_denied_leaves_state:
  "(fst (copyText True granted c text s) = Some CopyLimitExceeded \<longrightarrow>
      snd (copyText True granted c text s) = s
      \<and> clipboard (snd (copyText True granted c text s)) = clipboard s
      \<and> copiedChars (snd (copyText True granted c text s)) = copiedChars s
      \<and> stored_copied_chars (snd (copyText True granted c text s)) = stored_copied_chars s)
   \<and> (num_gt (num_add (c_copiedChars c) (Num (real (length text))))
              (num_div (num_mul (c_totalBookChars c) (c_copyAllowance c)) (Num 100)) \<longrightarrow>
      copyText True granted c text s = (Some CopyLimitExceeded, s))"
proof (intro conjI impI)
  assume "fst (copyText True granted c text s) = Some CopyLimitExceeded"
  then have "copyText True granted c text s = (Some CopyLimitExceeded, s)"
    by (simp only: copyText_denied_iff copyText_denied)
  then show "snd (copyText True granted c text s) = s"
    and "clipboard (snd (copyText True granted c text s)) = clipboard s"
    and "copiedChars (snd (copyText True granted c text s)) = copiedChars s"
    and "stored_copied_chars (snd (copyText True granted c text s)) = stored_copied_chars s"
    by simp_all
next
  assume "num_gt (num_add (c_copiedChars c) (Num (real (length text))))
              (num_div (num_mul (c_totalBookChars c) (c_copyAllowance c)) (Num 100))"
  then show "copyText True granted c text s = (Some CopyLimitExceeded, s)"
    by (rule copyText_denied)
qed

theorem copyText_denied_leaves_state_witness:
  "fst (copyText True True (render (scenario_quota\<lparr>copiedChars := Num 30\<rparr>)) (chars_of_length 15)
          (scenario_quota\<lparr>copiedChars := Num 30\<rparr>)) = Some CopyLimitExceeded
   \<and> snd (copyText True True (render (scenario_quota\<lparr>copiedChars := Num 30\<rparr>)) (chars_of_length 15)
          (scenario_quota\<lparr>copiedChars := Num 30\<rparr>)) = scenario_quota\<lparr>copiedChars := Num 30\<rparr>
   \<and> num_gt (num_add (c_copiedChars (render (scenario_quota\<lparr>copiedChars := Num 30\<rparr>)))
                 (Num (real (length (chars_of_length 15)))))
         (num_div (num_mul (c_totalBookChars (render (scenario_quota\<lparr>copiedChars := Num 30\<rparr>)))
                     (c_copyAllowance (render (scenario_quota\<lparr>copiedChars := Num 30\<rparr>))))
            (Num 100))"
proof -
  have h: "num_gt (num_add (c_copiedChars (render (scenario_quota\<lparr>copiedChars := Num 30\<rparr>)))
                 (Num (real (length (chars_of_length 15)))))
         (num_div (num_mul (c_totalBookChars (render (scenario_quota\<lparr>copiedChars := Num 30\<rparr>)))
                     (c_copyAllowance (render (scenario_quota\<lparr>copiedChars := Num 30\<rparr>))))
            (Num 100))"
    by (simp add: render_def scenario_quota_def scenario_allowance scenario_sums)
  from copyText_denied_leaves_state
         [of True "render (scenario_quota\<lparr>copiedChars := Num 30\<rparr>)" "chars_of_length 15"
             "scenario_quota\<lparr>copiedChars := Num 30\<rparr>"] h
  show ?thesis by simp
qed

text \<open>
  Claim C6. An allowance percentage below 0 or above 100 makes the validation
  effect throw, so no session state is produced; every percentage between 0 and 100
  is accepted and becomes the allowance.
\<close>

theorem copyAllowanceEffect_validates:
  "(p < 0 \<or> p > 100 \<longrightarrow>
      copyAllowanceEffect (Some (Num p)) s = Inl InvalidCopyAllowancePercentage)
   \<and> (0 \<le> p \<and> p \<le> 100 \<longrightarrow>
      copyAllowanceEffect (Some (Num p)) s = Inr (s\<lparr>copyAllowance := Num p\<rparr>))"
  by (auto simp: copyAllowanceEffect_def num_lt_def)

theorem copyAllowanceEffect_validates_witness:
  "((150::real) < 0 \<or> (150::real) > 100)
   \<and> copyAllowanceEffect (Some (Num 150)) scenario_quota = Inl InvalidCopyAllowancePercentage
   \<and> (0::real) \<le> 25 \<and> (25::real) \<le> 100
   \<and> copyAllowanceEffect (Some (Num 25)) scenario_quota
       = Inr (scenario_quota\<lparr>copyAllowance := Num 25\<rparr>)"
  using copyAllowanceEffect_validates [of 150 scenario_quota]
        copyAllowanceEffect_validates [of 25 scenario_quota]
  by simp

subsection \<open>Highlights\<close>

lemma addHighlight_highlights:
  "highlights (addHighlight stringify now arg s) =
     highlights s @
       [\<lparr>h_cfi = h_cfi arg, h_text = h_text arg,
         h_type = Some (case h_type arg of None \<Rightarrow> HighlightKind | Some t \<Rightarrow> t),
         h_color = Some (case h_color arg of None \<Rightarrow> ''yellow'' | Some c \<Rightarrow> c),
         h_createdAt = now\<rparr>]"
  by (simp add: addHighlight_def Let_def)

text \<open>
  Claim C2, as stated, fails: adding the same position and kind twice leaves two
  entries with that key.
\<close>

theorem addHighlight_duplicate_counterexample:
  "\<not> distinct (map (\<lambda>h. (h_cfi h, h_type h))
        (highlights
           (addHighlight example_stringify ''t2'' example_highlight
              (addHighlight example_stringify ''t1'' example_highlight
                 (initial_annotations None None None)))))"
  by (simp add: addHighlight_highlights initial_annotations_def example_highlight_def)

text \<open>
  Claim C2, amended. \<open>addHighlight\<close> never replaces: it appends the new entry after
  all existing entries, which stay as they are and in their order (also those with
  the same position and kind), so the collection grows by one with every call, and
  the grown collection is what is stored.
\<close>

theorem addHighlight_appends:
  "length (highlights (addHighlight stringify now arg s)) = Suc (length (highlights s))
   \<and> butlast (highlights (addHighlight stringify now arg s)) = highlights s
   \<and> h_cfi (last (highlights (addHighlight stringify now arg s))) = h_cfi arg
   \<and> h_type (last (highlights (addHighlight stringify now arg s)))
       = Some (case h_type arg of None \<Rightarrow> HighlightKind | Some t \<Rightarrow> t)
   \<and> stored_highlights (addHighlight stringify now arg s)
       = Some (stringify (highlights (addHighlight stringify now arg s)))"
  by (simp add: addHighlight_def Let_def)

text \<open>
  Claim C9. \<open>removeHighlight(cfi, type)\<close> deletes every highlight at \<open>cfi\<close> whatever its
  kind (the result does not depend on \<open>type\<close>), keeps every highlight at another
  position, in order, and stores the collection it leaves.
\<close>

theorem removeHighlight_by_position_only:
  "highlights (removeHighlight stringify cfi type s) = filter (\<lambda>h. h_cfi h \<noteq> cfi) (highlights s)
   \<and> (\<forall>h \<in> set (highlights (removeHighlight stringify cfi type s)). h_cfi h \<noteq> cfi)
   \<and> (\<forall>c. c \<noteq> cfi \<longrightarrow>
         filter (\<lambda>h. h_cfi h = c) (highlights (removeHighlight stringify cfi type s))
           = filter (\<lambda>h. h_cfi h = c) (highlights s))
   \<and> removeHighlight stringify cfi type s = removeHighlight stringify cfi type' s
   \<and> stored_highlights (removeHighlight stringify cfi type s)
       = Some (stringify (filter (\<lambda>h. h_cfi h \<noteq> cfi) (highlights s)))"
proof -
  have "filter (\<lambda>h. h_cfi h = c) (filter (\<lambda>h. h_cfi h \<noteq> cfi) hs) = filter (\<lambda>h. h_cfi h = c) hs"
    if "c \<noteq> cfi" for c and hs :: "highlight list"
    using that by (induction hs) auto
  then show ?thesis
    by (simp add: removeHighlight_def Let_def)
qed

theorem removeHighlight_by_position_only_witness:
  "highlights
     (removeHighlight example_stringify ''epubcfi(/6/4!/4/2,/1:0,/1:5)'' HighlightKind
        ((initial_annotations None None None)
           \<lparr>highlights := [example_underline, example_elsewhere]\<rparr>))
     = [example_elsewhere]
   \<and> h_cfi example_elsewhere \<noteq> ''epubcfi(/6/4!/4/2,/1:0,/1:5)''
   \<and> h_type example_underline \<noteq> Some HighlightKind"
  using removeHighlight_by_position_only
          [of example_stringify "''epubcfi(/6/4!/4/2,/1:0,/1:5)''" HighlightKind
              "(initial_annotations None None None)
                 \<lparr>highlights := [example_underline, example_elsewhere]\<rparr>"]
  by (simp add: initial_annotations_def example_underline_def example_elsewhere_def)

subsection \<open>Loading the stored collections\<close>

lemma loadSavedHighlights_parse_failure:
  "parse saved = None \<Longrightarrow>
   loadSavedHighlights parse stringify now (initial_annotations (Some saved) sb sn)
     = Inr (initial_annotations (Some saved) sb sn)"
  by (simp add: loadSavedHighlights_def initial_annotations_def)

lemma loadSavedBookmarks_parse_failure:
  "parse saved = None \<Longrightarrow>
   loadSavedBookmarks parse (initial_annotations sh (Some saved) sn)
     = Inr (initial_annotations sh (Some saved) sn)"
  by (simp add: loadSavedBookmarks_def initial_annotations_def)

text \<open>
  Claim C4 holds for highlights and bookmarks (the two lemmas above) and fails for
  notes: with the rendition in place and a stored notes text that does not parse,
  the \<open>SyntaxError\<close> of \<open>JSON.parse\<close> leaves the notes effect.
\<close>

theorem loadSavedNotes_parse_failure_escapes:
  "loadSavedNotes (\<lambda>saved. None) True (initial_annotations None None (Some ''{''))
     = Inl JsonSyntaxError"
  by (simp add: loadSavedNotes_def initial_annotations_def)

subsection \<open>Table of contents\<close>

lemma roundTiesToEven_nonneg: "0 \<le> y \<Longrightarrow> 0 \<le> roundTiesToEven y"
  by (auto simp: roundTiesToEven_def Let_def)

lemma fl_nonneg: "0 \<le> x \<Longrightarrow> 0 \<le> fl x"
proof -
  assume "0 \<le> x"
  then have "0 \<le> x / quantum x" using quantum_pos [of x] by simp
  then have "0 \<le> roundTiesToEven (x / quantum x)" by (rule roundTiesToEven_nonneg)
  then show ?thesis using quantum_pos [of x] by (simp add: fl_def)
qed

lemma toNumber_Num: "toNumber x = Num y \<Longrightarrow> y = fl x"
  by (auto simp: toNumber_def Let_def split: if_splits)

lemma estimatePage_finite:
  assumes L: "0 < L" and n: "0 < n"
    and a: "toNumber (real i / real n) = Num a"
    and b: "toNumber (a * real L) = Num b"
    and small: "\<lfloor>b\<rfloor> + 1 \<le> 2 ^ 53"
  shows "estimatePage n (Some L) i = Some (Num (of_int (max 1 (min (int L) (\<lfloor>b\<rfloor> + 1)))))"
proof -
  from toNumber_Num [OF a] have "0 \<le> a" by (simp add: fl_nonneg)
  with toNumber_Num [OF b] have "0 \<le> b" by (simp add: fl_nonneg)
  then have f0: "0 \<le> \<lfloor>b\<rfloor>" by simp
  define f where "f = nat \<lfloor>b\<rfloor>"
  with f0 have f: "\<lfloor>b\<rfloor> = int f" by simp
  from small f have "int (f + 1) \<le> 2 ^ 53" by simp
  then have "f + 1 \<le> 2 ^ 53"
    by (simp add: of_nat_le_iff [symmetric] del: of_nat_le_iff of_nat_add)
  from num_add_nat [OF this]
  have sum: "num_add (Num (of_int \<lfloor>b\<rfloor>)) (Num 1) = Num (real (f + 1))"
    by (simp add: f)
  have n0: "real n \<noteq> 0" using n by simp
  have q: "num_div (Num (real i)) (Num (real n)) = Num a"
    using n0 a by (simp add: num_div.simps)
  have m: "num_mul (Num a) (Num (real L)) = Num b"
    using b by (simp add: num_mul.simps)
  have "estimatePage n (Some L) i
        = Some (if num_gt (Num (real (f + 1))) (Num (real L)) then Num (real L)
                else Num (real (f + 1)))"
    using L by (simp add: estimatePage_def q m sum Let_def num_lt_def del: of_nat_add of_nat_Suc)
  also have "\<dots> = Some (Num (of_int (max 1 (min (int L) (int f + 1)))))"
    using L by (auto simp: max_def min_def)
  finally show ?thesis by (simp only: f)
qed

lemma enhanceItem_page:
  "page (enhanceItem n locs item i) = estimatePage n (locs item i) i"
  by (cases item) simp

lemma enhanceItem_sub:
  "j < length (subitems item) \<Longrightarrow>
   e_subitems (enhanceItem n locs item i) ! j = enhanceItem n locs (subitems item ! j) (i + j + 1)"
  by (cases item) (simp add: nth_enumerate_eq)

lemma enhanceToc_nth:
  "k < length toc \<Longrightarrow> enhanceTocWithPages locs toc ! k = enhanceItem (length toc) locs (toc ! k) k"
  by (simp add: enhanceTocWithPages_def nth_enumerate_eq)

lemma flat_toc_pages:
  "map page (enhanceTocWithPages (all_locations 100) flat_toc)
     = [Some (Num 1), Some (Num 26), Some (Num 51), Some (Num 76)]"
  by code_simp

lemma flat_toc_pages_failing:
  "map page (enhanceTocWithPages (failing_at_1 100) flat_toc)
     = [Some (Num 1), None, Some (Num 51), Some (Num 76)]"
  by code_simp

lemma nested_toc_pages:
  "enhanceTocWithPages (all_locations 100) nested_toc =
     [EnhancedNavItem ''Part'' ''p1'' (Some (Num 1))
        [EnhancedNavItem ''Chapter'' ''p1c1'' (Some (Num 100)) []]]"
  by code_simp

lemma ten_toc_page: "page (enhanceTocWithPages (all_locations 90) ten_toc ! 7) = Some (Num 63)"
  by code_simp

lemma spec_pages:
  "sum_list (map spec_total_entries nested_toc) = 2"
  "spec_estimated_page (sum_list (map spec_total_entries nested_toc)) 100 1 = 51"
  "spec_estimated_page (sum_list (map spec_total_entries nested_toc)) 100 0 = 1"
  "sum_list (map spec_total_entries ten_toc) = 10"
  "spec_estimated_page (sum_list (map spec_total_entries ten_toc)) 90 7 = 64"
  by code_simp+

text \<open>
  Claim C5, as stated, fails in two ways. On a nested table of contents, one part
  with one chapter has two entries in all; with 100 locations the claim gives the
  chapter, at flat index 1 of 2, page 51 (and page 1 if its index were 0), but the
  code divides by the number of top-level items, 1, and gives the chapter page
  100. And the code computes in doubles: of 10 flat entries with 90 locations the
  entry at index 7 gets page 63, where \<open>floor(7/10 \<times> 90) + 1\<close> is 64.
\<close>

theorem enhanceTocWithPages_nested_counterexample:
  "sum_list (map spec_total_entries nested_toc) = 2
   \<and> page (e_subitems (enhanceTocWithPages (all_locations 100) nested_toc ! 0) ! 0) = Some (Num 100)
   \<and> spec_estimated_page (sum_list (map spec_total_entries nested_toc)) 100 1 = 51
   \<and> spec_estimated_page (sum_list (map spec_total_entries nested_toc)) 100 0 = 1
   \<and> sum_list (map spec_total_entries ten_toc) = 10
   \<and> page (enhanceTocWithPages (all_locations 90) ten_toc ! 7) = Some (Num 63)
   \<and> spec_estimated_page (sum_list (map spec_total_entries ten_toc)) 90 7 = 64"
proof (intro conjI)
  show "page (e_subitems (enhanceTocWithPages (all_locations 100) nested_toc ! 0) ! 0)
          = Some (Num 100)"
    by (simp add: nested_toc_pages)
qed (rule spec_pages ten_toc_page)+

text \<open>
  Claim C5, amended. With \<open>n\<close> the number of top-level entries (nested entries are
  not counted), every entry whose locations count \<open>totalLocations\<close> is positive gets
  page \<open>floor((i/n) \<times> totalLocations) + 1\<close> clamped to \<open>[1, totalLocations]\<close>, the
  quotient and the product each rounded to a double, where \<open>i\<close> is the position of
  a top-level entry and, for the \<open>j\<close>-th subitem of an entry with index \<open>i\<close>,
  \<open>i + j + 1\<close> (so the indices of nested entries coincide with those of the entries
  that follow). Four flat entries with 100 locations get pages 1, 26, 51, 76. An
  entry whose estimate fails (no locations, none of them, or a throwing call) is
  left without a page; the other entries keep their estimates and the tree is
  still built, entry for entry.
\<close>

theorem enhanceTocWithPages_estimates:
  "length (enhanceTocWithPages locs toc) = length toc
   \<and> (\<forall>k < length toc.
         enhanceTocWithPages locs toc ! k = enhanceItem (length toc) locs (toc ! k) k)
   \<and> (\<forall>j < length (subitems item).
         e_subitems (enhanceItem n locs item i) ! j
           = enhanceItem n locs (subitems item ! j) (i + j + 1))
   \<and> length (e_subitems (enhanceItem n locs item i)) = length (subitems item)
   \<and> e_label (enhanceItem n locs item i) = nav_label item
   \<and> e_href (enhanceItem n locs item i) = nav_href item
   \<and> (locs item i = Some L \<and> 0 < L \<and> 0 < n
        \<and> toNumber (real i / real n) = Num a \<and> toNumber (a * real L) = Num b
        \<and> \<lfloor>b\<rfloor> + 1 \<le> 2 ^ 53 \<longrightarrow>
         page (enhanceItem n locs item i)
           = Some (Num (of_int (max 1 (min (int L) (\<lfloor>b\<rfloor> + 1)))))
         \<and> a = fl (real i / real n) \<and> b = fl (a * real L))
   \<and> (locs item i = None \<or> locs item i = Some 0 \<longrightarrow> page (enhanceItem n locs item i) = None)
   \<and> map page (enhanceTocWithPages (all_locations 100) flat_toc)
        = [Some (Num 1), Some (Num 26), Some (Num 51), Some (Num 76)]
   \<and> map page (enhanceTocWithPages (failing_at_1 100) flat_toc)
        = [Some (Num 1), None, Some (Num 51), Some (Num 76)]"
proof (intro conjI allI impI)
  show "length (enhanceTocWithPages locs toc) = length toc"
    by (simp add: enhanceTocWithPages_def)
  show "length (e_subitems (enhanceItem n locs item i)) = length (subitems item)"
    by (cases item) simp
  show "e_label (enhanceItem n locs item i) = nav_label item"
    by (cases item) simp
  show "e_href (enhanceItem n locs item i) = nav_href item"
    by (cases item) simp
  show "map page (enhanceTocWithPages (all_locations 100) flat_toc)
        = [Some (Num 1), Some (Num 26), Some (Num 51), Some (Num 76)]"
    by (rule flat_toc_pages)
  show "map page (enhanceTocWithPages (failing_at_1 100) flat_toc)
        = [Some (Num 1), None, Some (Num 51), Some (Num 76)]"
    by (rule flat_toc_pages_failing)
next
  fix k assume "k < length toc"
  then show "enhanceTocWithPages locs toc ! k = enhanceItem (length toc) locs (toc ! k) k"
    by (rule enhanceToc_nth)
next
  fix j assume "j < length (subitems item)"
  then show "e_subitems (enhanceItem n locs item i) ! j
           = enhanceItem n locs (subitems item ! j) (i + j + 1)"
    by (rule enhanceItem_sub)
next
  assume h: "locs item i = Some L \<and> 0 < L \<and> 0 < n
        \<and> toNumber (real i / real n) = Num a \<and> toNumber (a * real L) = Num b
        \<and> \<lfloor>b\<rfloor> + 1 \<le> 2 ^ 53"
  then show "page (enhanceItem n locs item i)
           = Some (Num (of_int (max 1 (min (int L) (\<lfloor>b\<rfloor> + 1)))))"
    by (simp add: enhanceItem_page estimatePage_finite)
  from h show "a = fl (real i / real n)" by (simp add: toNumber_Num)
  from h show "b = fl (a * real L)" by (simp add: toNumber_Num)
next
  assume "locs item i = None \<or> locs item i = Some 0"
  then show "page (enhanceItem n locs item i) = None"
    by (auto simp: enhanceItem_page estimatePage_def)
qed

theorem enhanceTocWithPages_estimates_witness:
  "(0::nat) < length nested_toc
   \<and> enhanceTocWithPages (all_locations 100) nested_toc ! 0
       = enhanceItem (length nested_toc) (all_locations 100) (nested_toc ! 0) 0
   \<and> (0::nat) < length (subitems (nested_toc ! 0))
   \<and> e_subitems (enhanceItem 1 (all_locations 100) (nested_toc ! 0) 1) ! 0
       = enhanceItem 1 (all_locations 100) (subitems (nested_toc ! 0) ! 0) (1 + 0 + 1)
   \<and> all_locations 100 (nested_toc ! 0) 1 = Some 100 \<and> (0::nat) < 100 \<and> (0::nat) < 1
   \<and> toNumber (real 1 / real 1) = Num 1 \<and> toNumber (1 * real 100) = Num 100
   \<and> \<lfloor>100::real\<rfloor> + 1 \<le> 2 ^ 53
   \<and> page (enhanceItem 1 (all_locations 100) (nested_toc ! 0) 1) = Some (Num 100)
   \<and> failing_at_1 100 (nested_toc ! 0) 1 = None
   \<and> page (enhanceItem 1 (failing_at_1 100) (nested_toc ! 0) 1) = None"
proof -
  have len: "(0::nat) < length nested_toc" "(0::nat) < length (subitems (nested_toc ! 0))"
    by (simp_all add: nested_toc_def)
  have a: "toNumber (real 1 / real 1) = Num 1" by code_simp
  have b: "toNumber (1 * real 100) = Num 100" by code_simp
  have locs: "all_locations 100 (nested_toc ! 0) 1 = Some 100"
    "failing_at_1 100 (nested_toc ! 0) 1 = None"
    by (simp_all add: all_locations_def failing_at_1_def)
  have small: "\<lfloor>100::real\<rfloor> + 1 \<le> 2 ^ 53" by simp
  note all = enhanceTocWithPages_estimates
               [of "all_locations 100" nested_toc "nested_toc ! 0" 1 1 100 1 100]
  note failing = enhanceTocWithPages_estimates
               [of "failing_at_1 100" nested_toc "nested_toc ! 0" 1 1 100 1 100]
  have top: "enhanceTocWithPages (all_locations 100) nested_toc ! 0
       = enhanceItem (length nested_toc) (all_locations 100) (nested_toc ! 0) 0"
    using all len by blast
  have sub: "e_subitems (enhanceItem 1 (all_locations 100) (nested_toc ! 0) 1) ! 0
       = enhanceItem 1 (all_locations 100) (subitems (nested_toc ! 0) ! 0) (1 + 0 + 1)"
    using all len by blast
  have pg: "page (enhanceItem 1 (all_locations 100) (nested_toc ! 0) 1) = Some (Num 100)"
    using all locs a b small by simp
  have none: "page (enhanceItem 1 (failing_at_1 100) (nested_toc ! 0) 1) = None"
    using failing locs by blast
  show ?thesis
    using len top sub locs a b small pg none by (intro conjI) simp_all
qed

subsection \<open>Selecting a search result\<close>

text \<open>
  Claim C10. With \<open>n\<close> results, \<open>goToSearchResult(i)\<close> for \<open>i < 0\<close> or \<open>i \<ge> n\<close> changes
  nothing: no navigation, same selected position, same current index. For
  \<open>0 \<le> i < n\<close> it selects result \<open>i\<close>: the selected position becomes that result's,
  the current index becomes \<open>i\<close>, and the rendition, when there is one, is asked to
  display that position.
\<close>

theorem goToSearchResult_bounds:
  "(i < 0 \<or> i \<ge> int (length (searchResults s)) \<longrightarrow> goToSearchResult rendition i s = s)
   \<and> (0 \<le> i \<and> i < int (length (searchResults s)) \<longrightarrow>
        selectedCfi (goToSearchResult rendition i s) = r_cfi (searchResults s ! nat i)
        \<and> currentSearchResultIndex (goToSearchResult rendition i s) = i
        \<and> searchResults (goToSearchResult rendition i s) = searchResults s
        \<and> displayed (goToSearchResult True i s) = displayed s @ [r_cfi (searchResults s ! nat i)])"
  by (auto simp: goToSearchResult_def Let_def)

theorem goToSearchResult_bounds_witness:
  "((2::int) < 0 \<or> 2 \<ge> int (length (searchResults example_results)))
   \<and> goToSearchResult True 2 example_results = example_results
   \<and> ((-1::int) < 0 \<or> -1 \<ge> int (length (searchResults example_results)))
   \<and> goToSearchResult True (-1) example_results = example_results
   \<and> (0::int) \<le> 1 \<and> 1 < int (length (searchResults example_results))
   \<and> selectedCfi (goToSearchResult True 1 example_results) = ''cfi-b''
   \<and> currentSearchResultIndex (goToSearchResult True 1 example_results) = 1
   \<and> displayed (goToSearchResult True 1 example_results) = [''cfi-b'']"
  using goToSearchResult_bounds [of 2 example_results True]
        goToSearchResult_bounds [of "-1" example_results True]
        goToSearchResult_bounds [of 1 example_results True]
  by (simp add: example_results_def)

subsection \<open>Searching the book\<close>

lemma find_upt_None: "find P [a..<b] = None \<Longrightarrow> filter P [a..<b] = []"
  by (auto simp: find_None_iff filter_empty_conv)

lemma find_upt_Some:
  "find P [a..<b] = Some p \<Longrightarrow>
   a \<le> p \<and> p < b \<and> P p \<and> filter P [a..<b] = p # filter P [Suc p..<b]"
proof (induction "b - a" arbitrary: a)
  case 0
  then show ?case by simp
next
  case (Suc n)
  then have ab: "a < b" by simp
  then have split: "[a..<b] = a # [Suc a..<b]" by (simp add: upt_conv_Cons)
  show ?case
  proof (cases "P a")
    case True
    with Suc.prems split ab show ?thesis by simp
  next
    case False
    with Suc.prems split have "find P [Suc a..<b] = Some p" by simp
    moreover from Suc.hyps(2) have "n = b - Suc a" by simp
    ultimately have "Suc a \<le> p \<and> p < b \<and> P p \<and> filter P [Suc a..<b] = p # filter P [Suc p..<b]"
      by (rule Suc.hyps(1) [rotated])
    with False split show ?thesis by simp
  qed
qed

lemma scanLoop_from:
  assumes q: "q \<noteq> []" and b: "b = Suc (length t)"
  shows "a \<le> length t \<Longrightarrow>
         scanLoop h href ci nodes t q
           (find (\<lambda>k. take (length q) (drop k t) = q) [a..<b]) acc
         = Some (acc @ List.map_filter (matchResult h href ci nodes t q)
                         (filter (\<lambda>k. take (length q) (drop k t) = q) [a..<b]))"
proof (induction "b - a" arbitrary: a acc rule: less_induct)
  case less
  let ?P = "\<lambda>k. take (length q) (drop k t) = q"
  let ?body = "matchResult h href ci nodes t q"
  show ?case
  proof (cases "find ?P [a..<b]")
    case None
    then have "filter ?P [a..<b] = []" by (rule find_upt_None)
    with None show ?thesis
      by (simp add: scanLoop.simps)
  next
    case (Some p)
    from find_upt_Some [OF Some]
    have ap: "a \<le> p" and pb: "p < b" and Pp: "?P p"
      and flt: "filter ?P [a..<b] = p # filter ?P [Suc p..<b]"
      by blast+
    from Pp q have p: "p < length t"
      by (cases "p < length t") auto
    then have "min (p + 1) (length t) = Suc p" by simp
    then have next_pos: "indexOf t q (p + 1) = find ?P [Suc p..<b]"
      unfolding indexOf_def b by (simp only:)
    have IH: "scanLoop h href ci nodes t q (find ?P [Suc p..<b]) acc'
              = Some (acc' @ List.map_filter ?body (filter ?P [Suc p..<b]))" for acc'
      using less.hyps [of "Suc p" acc'] ap p b by simp
    have "scanLoop h href ci nodes t q (Some p) acc
          = scanLoop h href ci nodes t q (indexOf t q (p + 1))
              (case ?body p of None \<Rightarrow> acc | Some r \<Rightarrow> acc @ [r])"
      by (subst scanLoop.simps) simp
    also have "\<dots> = Some ((case ?body p of None \<Rightarrow> acc | Some r \<Rightarrow> acc @ [r])
                          @ List.map_filter ?body (filter ?P [Suc p..<b]))"
      unfolding next_pos by (rule IH)
    also have "\<dots> = Some (acc @ List.map_filter ?body (p # filter ?P [Suc p..<b]))"
      by (cases "?body p") simp_all
    finally show ?thesis
      unfolding Some flt .
  qed
qed

lemma searchChapter_occurrences:
  assumes "q \<noteq> []" and "si_document item = Some nodes"
  shows "searchChapter h q ci item
         = Some (List.map_filter
                   (matchResult h (si_href item) ci nodes (toLowerCase h (concat nodes)) q)
                   (occurrences (toLowerCase h (concat nodes)) q))"
  using scanLoop_from [OF assms(1) refl, of 0 "toLowerCase h (concat nodes)" h "si_href item" ci nodes "[]"]
  by (simp add: searchChapter_def assms(2) Let_def indexOf_def occurrences_def)

lemma searchChapter_no_document:
  "si_document item = None \<Longrightarrow> searchChapter h q ci item = Some []"
  by (simp add: searchChapter_def)

lemma startOf_Suc:
  "j < length nodes \<Longrightarrow> startOf nodes (Suc j) = startOf nodes j + length (nodes ! j)"
  by (simp add: startOf_def take_Suc_conv_app_nth)

lemma startOf_mono: "i \<le> j \<Longrightarrow> startOf nodes i \<le> startOf nodes j"
proof (induction j)
  case 0
  then show ?case by simp
next
  case (Suc j)
  show ?case
  proof (cases "i = Suc j")
    case True
    then show ?thesis by simp
  next
    case False
    with Suc have le: "startOf nodes i \<le> startOf nodes j" by simp
    show ?thesis
    proof (cases "j < length nodes")
      case True
      with le show ?thesis by (simp add: startOf_Suc)
    next
      case False
      then have "startOf nodes (Suc j) = startOf nodes j" by (simp add: startOf_def)
      with le show ?thesis by simp
    qed
  qed
qed

lemma findNode_spec:
  "findNode nodes off i = (off', j) \<Longrightarrow> i \<le> length nodes \<Longrightarrow>
   i \<le> j \<and> j \<le> length nodes \<and> off + startOf nodes i = off' + startOf nodes j
   \<and> (j < length nodes \<longrightarrow> off' < length (nodes ! j))"
proof (induction nodes off i rule: findNode.induct)
  case (1 textNodes offset nodeIndex)
  show ?case
  proof (cases "nodeIndex < length textNodes")
    case False
    with "1.prems" show ?thesis by (simp add: findNode.simps [of textNodes offset nodeIndex])
  next
    case True
    show ?thesis
    proof (cases "offset < length (textNodes ! nodeIndex)")
      case inside: True
      with True "1.prems" show ?thesis
        by (simp add: findNode.simps [of textNodes offset nodeIndex])
    next
      case outside: False
      with True "1.prems"
      have rec: "findNode textNodes (offset - length (textNodes ! nodeIndex)) (nodeIndex + 1) = (off', j)"
        by (simp add: findNode.simps [of textNodes offset nodeIndex])
      from True have "nodeIndex + 1 \<le> length textNodes" by simp
      from "1.IH" [OF True refl outside rec this] True outside show ?thesis
        by (auto simp: startOf_Suc)
    qed
  qed
qed

lemma matchResult_Some_iff:
  "matchResult h href ci nodes t q p \<noteq> None \<longleftrightarrow>
     (case findNode nodes p 0 of (off, j) \<Rightarrow> j < length nodes \<and> off + length q \<le> length (nodes ! j))"
  by (auto simp: matchResult_def rangeWithin_def Let_def split: prod.splits)

lemma matchResult_within:
  assumes q: "q \<noteq> []"
  shows "matchResult h href ci nodes t q p \<noteq> None \<longleftrightarrow> withinOneNode nodes q p"
proof -
  obtain off j where fn: "findNode nodes p 0 = (off, j)" by (cases "findNode nodes p 0")
  from findNode_spec [OF fn]
  have j: "j \<le> length nodes" and eq: "p = off + startOf nodes j"
    and off: "j < length nodes \<Longrightarrow> off < length (nodes ! j)"
    by (simp_all add: startOf_def)
  show ?thesis
  proof
    assume "matchResult h href ci nodes t q p \<noteq> None"
    then have "case findNode nodes p 0 of
                 (off, j) \<Rightarrow> j < length nodes \<and> off + length q \<le> length (nodes ! j)"
      by (simp only: matchResult_Some_iff)
    with fn have jl: "j < length nodes" and fit: "off + length q \<le> length (nodes ! j)"
      by simp_all
    then have "startOf nodes j \<le> p \<and> p + length q \<le> startOf nodes (Suc j)"
      using eq by (simp add: startOf_Suc)
    with jl show "withinOneNode nodes q p"
      unfolding withinOneNode_def by blast
  next
    assume "withinOneNode nodes q p"
    then obtain j' where j': "j' < length nodes" and lo: "startOf nodes j' \<le> p"
      and hi: "p + length q \<le> startOf nodes (Suc j')"
      unfolding withinOneNode_def by auto
    from q have ql: "0 < length q" by simp
    have "startOf nodes (Suc j') \<le> startOf nodes (length nodes)"
      using j' by (intro startOf_mono) simp
    with hi ql have ptotal: "p < startOf nodes (length nodes)" by linarith
    have jl: "j < length nodes"
    proof (rule ccontr)
      assume "\<not> j < length nodes"
      with j have "j = length nodes" by simp
      with eq ptotal show False by simp
    qed
    from off [OF jl] eq have pj: "p < startOf nodes (Suc j)"
      using jl by (simp add: startOf_Suc)
    have "j = j'"
    proof (rule ccontr)
      assume "j \<noteq> j'"
      then consider "j < j'" | "j' < j" by linarith
      then show False
      proof cases
        case 1
        then have "startOf nodes (Suc j) \<le> startOf nodes j'" by (intro startOf_mono) simp
        with pj lo show False by simp
      next
        case 2
        then have "startOf nodes (Suc j') \<le> startOf nodes j" by (intro startOf_mono) simp
        with hi ql eq show False by linarith
      qed
    qed
    with hi eq jl have "off + length q \<le> length (nodes ! j)"
      by (simp add: startOf_Suc)
    with fn jl have "case findNode nodes p 0 of
                 (off, j) \<Rightarrow> j < length nodes \<and> off + length q \<le> length (nodes ! j)"
      by simp
    then show "matchResult h href ci nodes t q p \<noteq> None"
      by (simp only: matchResult_Some_iff)
  qed
qed

lemma occurrences_iff:
  "p \<in> set (occurrences t q) \<longleftrightarrow> p \<le> length t \<and> take (length q) (drop p t) = q"
  by (auto simp add: occurrences_def less_Suc_eq_le simp del: upt_Suc)

lemma occurrences_sorted: "sorted (occurrences t q) \<and> distinct (occurrences t q)"
  unfolding occurrences_def by (simp add: sorted_wrt_filter del: upt_Suc)

lemma occurrence_bound:
  "q \<noteq> [] \<Longrightarrow> p \<in> set (occurrences t q) \<Longrightarrow> p + length q \<le> length t"
proof -
  assume q: "q \<noteq> []" and "p \<in> set (occurrences t q)"
  then have "take (length q) (drop p t) = q" by (simp add: occurrences_iff)
  then have "length (take (length q) (drop p t)) = length q" by simp
  then have "min (length q) (length t - p) = length q" by (simp only: length_take length_drop)
  moreover from q have "0 < length q" by simp
  ultimately show ?thesis by linarith
qed

lemma map_filter_all_Some:
  "\<forall>x \<in> set xs. f x \<noteq> None \<Longrightarrow> length (List.map_filter f xs) = length xs"
  by (induction xs) auto

lemma single_node_within:
  assumes "q \<noteq> []" and "p \<in> set (occurrences t q)" and "length t \<le> length node"
  shows "withinOneNode [node] q p"
proof -
  from occurrence_bound [OF assms(1,2)] assms(3) have "p + length q \<le> length node" by simp
  then show ?thesis
    by (simp add: withinOneNode_def startOf_def)
qed

lemma tagged_update:
  "tagged tag pending \<Longrightarrow> task < length pending \<Longrightarrow> pending ! task = r # rest \<Longrightarrow>
   tagged tag (pending[task := rest]) \<and> tag r = task"
  unfolding tagged_def
  by (metis length_list_update list.set_intros(1) list.set_intros(2) nth_list_update_eq
        nth_list_update_neq)

lemma tagged_snoc:
  "tagged tag (xs @ [x]) \<longleftrightarrow> tagged tag xs \<and> (\<forall>r \<in> set x. tag r = length xs)"
  unfolding tagged_def
  by (auto simp: nth_append less_Suc_eq)

lemma filter_concat_tagged:
  "tagged tag pending \<Longrightarrow>
   filter (\<lambda>r. tag r = k) (concat pending) = (if k < length pending then pending ! k else [])"
proof (induction pending rule: rev_induct)
  case Nil
  then show ?case by simp
next
  case (snoc x xs)
  then have t: "tagged tag xs" and x: "\<forall>r \<in> set x. tag r = length xs"
    by (simp_all add: tagged_snoc)
  from x have fx: "filter (\<lambda>r. tag r = k) x = (if k = length xs then x else [])"
    by (auto simp: filter_empty_conv filter_id_conv)
  from snoc.IH [OF t] fx show ?case
    by (auto simp: nth_append)
qed

lemma sorted_concat_tagged:
  "tagged tag pending \<Longrightarrow> sorted (map tag (concat pending))
     \<and> (\<forall>r \<in> set (concat pending). tag r < length pending)"
proof (induction pending rule: rev_induct)
  case Nil
  then show ?case by simp
next
  case (snoc x xs)
  then have t: "tagged tag xs" and x: "\<forall>r \<in> set x. tag r = length xs"
    by (simp_all add: tagged_snoc)
  from x have "map tag x = replicate (length x) (length xs)"
    by (simp add: map_replicate_const [symmetric] cong: map_cong)
  then have sx: "sorted (map tag x)" by (simp add: sorted_replicate)
  from snoc.IH [OF t] x sx show ?case
    by (auto simp: sorted_append less_Suc_eq intro: less_imp_le)
qed

lemma publish_filter:
  "tagged tag pending \<Longrightarrow>
   filter (\<lambda>r. tag r = k) (publish schedule pending results)
     = filter (\<lambda>r. tag r = k) results @ (if k < length pending then pending ! k else [])"
proof (induction schedule arbitrary: pending results)
  case Nil
  then show ?case by (simp add: filter_concat_tagged)
next
  case (Cons task schedule)
  show ?case
  proof (cases "task < length pending")
    case False
    with Cons show ?thesis by simp
  next
    case True
    show ?thesis
    proof (cases "pending ! task")
      case Nil
      with True Cons show ?thesis by simp
    next
      case (Cons r rest)
      from tagged_update [OF Cons.prems True Cons]
      have t': "tagged tag (pending[task := rest])" and r: "tag r = task" by simp_all
      from Cons.IH [OF t', of "results @ [r]"] True Cons r show ?thesis
        by (auto simp: nth_list_update)
    qed
  qed
qed

lemma set_publish:
  "set (publish schedule pending results) = set results \<union> set (concat pending)"
proof (induction schedule arbitrary: pending results)
  case Nil
  then show ?case by simp
next
  case (Cons task schedule)
  show ?case
  proof (cases "task < length pending")
    case False
    with Cons show ?thesis by simp
  next
    case True
    show ?thesis
    proof (cases "pending ! task")
      case Nil
      with True Cons.IH show ?thesis by simp
    next
      case (Cons r rest)
      have "(\<Union>x\<in>set (pending[task := rest]). set x) \<union> {r} = (\<Union>x\<in>set pending. set x)"
      proof -
        have p: "pending = take task pending @ (r # rest) # drop (Suc task) pending"
          using True Cons by (metis id_take_nth_drop)
        have u: "pending[task := rest] = take task pending @ rest # drop (Suc task) pending"
          using True by (simp add: upd_conv_take_nth_drop)
        show ?thesis
          by (subst (2) p, subst u) auto
      qed
      with Cons.IH [of "pending[task := rest]" "results @ [r]"] True Cons show ?thesis
        by auto
    qed
  qed
qed

lemma publish_unscheduled: "publish [] pending [] = concat pending"
  by simp

lemma complete_schedule_Nil:
  "complete_schedule [] pending \<Longrightarrow> concat pending = []"
  by (auto simp: complete_schedule_def in_set_conv_nth)

lemma complete_schedule_Cons:
  assumes "complete_schedule (task # schedule) pending"
  shows "task < length pending
         \<and> (\<exists>r rest. pending ! task = r # rest \<and> complete_schedule schedule (pending[task := rest]))"
proof -
  from assms have task: "task < length pending"
    and cnt: "\<forall>k < length pending. count_list (task # schedule) k = length (pending ! k)"
    and rng: "\<forall>k \<in> set schedule. k < length pending"
    by (auto simp: complete_schedule_def)
  from cnt task have "count_list (task # schedule) task = length (pending ! task)" by blast
  then have "length (pending ! task) = Suc (count_list schedule task)" by simp
  then obtain r rest where pt: "pending ! task = r # rest"
    and rest: "length rest = count_list schedule task"
    by (cases "pending ! task") auto
  have "complete_schedule schedule (pending[task := rest])"
    unfolding complete_schedule_def
  proof (intro conjI ballI)
    fix k assume "k \<in> set schedule"
    with rng show "k < length (pending[task := rest])" by simp
  next
    fix k assume "k \<in> set [0 ..< length (pending[task := rest])]"
    then have k: "k < length pending" by simp
    show "count_list schedule k = length (pending[task := rest] ! k)"
    proof (cases "k = task")
      case True
      with k rest show ?thesis by simp
    next
      case False
      from cnt k have "count_list (task # schedule) k = length (pending ! k)" by blast
      with False show ?thesis by simp
    qed
  qed
  with task pt show ?thesis by blast
qed

lemma publish_complete:
  "tagged tag pending \<Longrightarrow> complete_schedule schedule pending \<Longrightarrow>
   map tag (publish schedule pending results) = map tag results @ schedule"
proof (induction schedule arbitrary: pending results)
  case Nil
  then show ?case by (simp add: complete_schedule_Nil)
next
  case (Cons task schedule)
  from complete_schedule_Cons [OF Cons.prems(2)]
  obtain r rest where task: "task < length pending" and pt: "pending ! task = r # rest"
    and cs: "complete_schedule schedule (pending[task := rest])"
    by blast
  from tagged_update [OF Cons.prems(1) task pt]
  have t': "tagged tag (pending[task := rest])" and r: "tag r = task" by simp_all
  from Cons.IH [OF t' cs, of "results @ [r]"] task pt r show ?case by simp
qed

lemma those_map_Some:
  "\<forall>x \<in> set xs. f x = Some (g x) \<Longrightarrow> those (map f xs) = Some (map g xs)"
  by (induction xs) auto

lemma searchChapter_total:
  "q \<noteq> [] \<Longrightarrow> searchChapter h q ci item = Some (chapterResults h q ci item)"
  by (cases "si_document item")
     (simp_all add: searchChapter_no_document searchChapter_occurrences chapterResults_def)

lemma matchResult_chapterIndex:
  "matchResult h href ci nodes t q p = Some r \<Longrightarrow> r_chapterIndex r = ci"
  by (auto simp: matchResult_def Let_def split: prod.splits if_splits)

lemma in_set_map_filter:
  "r \<in> set (List.map_filter f xs) \<Longrightarrow> \<exists>x \<in> set xs. f x = Some r"
  by (auto simp: List.map_filter_def)

lemma chapterResults_chapterIndex:
  "r \<in> set (chapterResults h q ci item) \<Longrightarrow> r_chapterIndex r = ci"
  by (auto simp: chapterResults_def dest!: in_set_map_filter dest: matchResult_chapterIndex
           split: option.splits)

lemma searchBook_pushes:
  assumes "q \<noteq> []"
  shows "those (map (\<lambda>(chapterIndex, item). searchChapter h q chapterIndex item)
                    (enumerate 0 spineItems))
         = Some (map (\<lambda>(chapterIndex, item). chapterResults h q chapterIndex item)
                     (enumerate 0 spineItems))"
  by (rule those_map_Some) (auto simp: searchChapter_total [OF assms])

lemma tagged_pushes:
  "tagged r_chapterIndex
     (map (\<lambda>(chapterIndex, item). chapterResults h q chapterIndex item) (enumerate 0 spineItems))"
  unfolding tagged_def
  by (auto simp: nth_enumerate_eq dest: chapterResults_chapterIndex)

lemma searchBook_result:
  assumes "query \<noteq> []" and "toLowerCase h (trim query) \<noteq> []" and "spineItems \<noteq> []"
  shows "searchBook h schedule query (Some spineItems) s
         = Some (s\<lparr>isSearching := True,
                   searchResults :=
                     publish schedule
                       (map (\<lambda>(k, item). chapterResults h (toLowerCase h (trim query)) k item)
                            (enumerate 0 spineItems)) [],
                   currentSearchResultIndex :=
                     (if length (publish schedule
                                   (map (\<lambda>(k, item).
                                           chapterResults h (toLowerCase h (trim query)) k item)
                                        (enumerate 0 spineItems)) []) > 0
                      then 0 else -1),
                   isSearching := False\<rparr>)"
  using assms by (simp add: searchBook_def Let_def searchBook_pushes)

lemma example_queries:
  "toLowerCase example_host (trim (utf16 ''cat'')) = utf16 ''cat''"
  "toLowerCase example_host (trim (utf16 ''Cat '')) = utf16 ''cat''"
  by (simp_all add: trim_def isWhiteSpace_def utf16_def example_host_def asciiLowerCase_def)

lemma example_schedule:
  "complete_schedule [1, 0]
     (map (\<lambda>(k, item). chapterResults example_host (utf16 ''cat'') k item)
          (enumerate 0 example_spine))"
  by code_simp

lemma example_search:
  assumes "toLowerCase example_host (trim query) = utf16 ''cat''" and "query \<noteq> []"
  shows "map_option (\<lambda>s'. map r_chapterIndex (searchResults s'))
           (searchBook example_host [1, 0] query (Some example_spine) initial_search)
         = Some [1, 0]"
proof -
  have q: "toLowerCase example_host (trim query) \<noteq> []"
    by (simp add: assms(1) utf16_def)
  have sp: "example_spine \<noteq> []" by (simp add: example_spine_def)
  have "map r_chapterIndex
          (publish [1, 0]
             (map (\<lambda>(k, item). chapterResults example_host (utf16 ''cat'') k item)
                  (enumerate 0 example_spine)) []) = [1, 0]"
    using publish_complete [OF tagged_pushes example_schedule, of "[]"] by simp
  then show ?thesis
    by (simp add: searchBook_result [OF assms(2) q sp] assms(1))
qed

lemma scenario_occurrences:
  "occurrences (utf16 ''the cats category'') (utf16 ''cat'') = [4, 9]"
  by code_simp

lemma overlapping_occurrences: "occurrences (utf16 ''aaa'') (utf16 ''aa'') = [0, 1]"
  by code_simp

lemma scenario_findNode:
  "findNode [utf16 ''the cats category''] 4 0 = (4, 0)"
  "findNode [utf16 ''the cats category''] 9 0 = (9, 0)"
  by code_simp+

lemma scenario_excerpts:
  "substring (utf16 ''the cats category'') (4 - 30) (4 + length (utf16 ''cat'') + 30)
     = utf16 ''the cats category''"
  "substring (utf16 ''the cats category'') (9 - 30) (9 + length (utf16 ''cat'') + 30)
     = utf16 ''the cats category''"
  by code_simp+

lemma scenario_results:
  assumes "toLowerCase h (utf16 ''the cats category'') = utf16 ''the cats category''"
  shows
  "searchChapter h (utf16 ''cat'') ci
     \<lparr>si_href = href, si_document = Some [utf16 ''the cats category'']\<rparr>
   = Some [\<lparr>r_cfi = cfiFromRange h ci 0 4 7,
             r_excerpt = utf16 ''...'' @ utf16 ''the cats category'' @ utf16 ''...'',
             r_href = href,
             r_chapterTitle = (case getChapterFromCfi h (cfiFromRange h ci 0 4 7) of
                                 None \<Rightarrow> [] | Some t \<Rightarrow> t),
             r_chapterIndex = ci\<rparr>,
           \<lparr>r_cfi = cfiFromRange h ci 0 9 12,
             r_excerpt = utf16 ''...'' @ utf16 ''the cats category'' @ utf16 ''...'',
             r_href = href,
             r_chapterTitle = (case getChapterFromCfi h (cfiFromRange h ci 0 9 12) of
                                 None \<Rightarrow> [] | Some t \<Rightarrow> t),
             r_chapterIndex = ci\<rparr>]"
proof -
  have q: "utf16 ''cat'' \<noteq> []" by (simp add: utf16_def)
  have len: "length (utf16 ''cat'') = 3" "length (utf16 ''the cats category'') = 17"
    by (simp_all add: utf16_def)
  have m4: "matchResult h href ci [utf16 ''the cats category''] (utf16 ''the cats category'')
              (utf16 ''cat'') 4
            = Some \<lparr>r_cfi = cfiFromRange h ci 0 4 7,
                    r_excerpt = utf16 ''...'' @ utf16 ''the cats category'' @ utf16 ''...'',
                    r_href = href,
                    r_chapterTitle = (case getChapterFromCfi h (cfiFromRange h ci 0 4 7) of
                                        None \<Rightarrow> [] | Some t \<Rightarrow> t),
                    r_chapterIndex = ci\<rparr>"
    using scenario_excerpts(1)
    by (simp add: matchResult_def scenario_findNode rangeWithin_def len Let_def)
  have m9: "matchResult h href ci [utf16 ''the cats category''] (utf16 ''the cats category'')
              (utf16 ''cat'') 9
            = Some \<lparr>r_cfi = cfiFromRange h ci 0 9 12,
                    r_excerpt = utf16 ''...'' @ utf16 ''the cats category'' @ utf16 ''...'',
                    r_href = href,
                    r_chapterTitle = (case getChapterFromCfi h (cfiFromRange h ci 0 9 12) of
                                        None \<Rightarrow> [] | Some t \<Rightarrow> t),
                    r_chapterIndex = ci\<rparr>"
    using scenario_excerpts(2)
    by (simp add: matchResult_def scenario_findNode rangeWithin_def len Let_def)
  show ?thesis
    by (simp add: searchChapter_occurrences [OF q] assms scenario_occurrences m4 m9)
qed

text \<open>
  Claim C7, as stated, fails when an occurrence runs across a text-node boundary.
  In a chapter whose text nodes are \<open>the c\<close> and \<open>ats category\<close> the buffer is
  \<open>the cats category\<close> and the query \<open>cat\<close> occurs at offsets 4 and 9, but the scan
  reports one result only: the range for the occurrence at 4 would end beyond its
  node, building it throws, and the \<open>catch\<close> drops the match.
\<close>

theorem searchChapter_split_match_counterexample:
  "occurrences (toLowerCase example_host (concat [utf16 ''the c'', utf16 ''ats category'']))
     (utf16 ''cat'') = [4, 9]
   \<and> map_option length (searchChapter example_host (utf16 ''cat'') 0 split_chapter) = Some 1"
  by code_simp

text \<open>
  Claim C7, amended. For every chapter and every non-empty query the scan ends and
  reports, in ascending order of offset, one result for each occurrence of the
  query in the lower-cased buffer (every offset at which it occurs, overlapping
  occurrences included) that lies within a single text node, the nodes being laid
  out by the lengths of their own text; an occurrence that runs across a text-node
  boundary yields no result. In a chapter that is a single text node which
  lower-casing does not lengthen, every occurrence is reported; searching \<open>cat\<close> in
  the one-node chapter \<open>the cats category\<close> yields exactly two results, for offsets
  4 and 9; and \<open>aa\<close> occurs in \<open>aaa\<close> at offsets 0 and 1.
\<close>

theorem searchChapter_reports_matches_within_one_node:
  assumes "q \<noteq> []" and "si_document item = Some nodes"
  shows "searchChapter h q ci item
           = Some (List.map_filter
                     (matchResult h (si_href item) ci nodes (toLowerCase h (concat nodes)) q)
                     (occurrences (toLowerCase h (concat nodes)) q))
     \<and> (\<forall>p. matchResult h (si_href item) ci nodes (toLowerCase h (concat nodes)) q p \<noteq> None
              \<longleftrightarrow> withinOneNode nodes q p)
     \<and> (\<forall>p. p \<in> set (occurrences (toLowerCase h (concat nodes)) q)
              \<longleftrightarrow> p + length q \<le> length (toLowerCase h (concat nodes))
                  \<and> take (length q) (drop p (toLowerCase h (concat nodes))) = q)
     \<and> sorted (occurrences (toLowerCase h (concat nodes)) q)
     \<and> distinct (occurrences (toLowerCase h (concat nodes)) q)
     \<and> (length nodes = 1 \<and> length (toLowerCase h (concat nodes)) \<le> length (concat nodes) \<longrightarrow>
           map_option length (searchChapter h q ci item)
             = Some (length (occurrences (toLowerCase h (concat nodes)) q)))
     \<and> (toLowerCase h (utf16 ''the cats category'') = utf16 ''the cats category'' \<longrightarrow>
         searchChapter h (utf16 ''cat'') ci
           \<lparr>si_href = href, si_document = Some [utf16 ''the cats category'']\<rparr>
         = Some [\<lparr>r_cfi = cfiFromRange h ci 0 4 7,
                   r_excerpt = utf16 ''...'' @ utf16 ''the cats category'' @ utf16 ''...'',
                   r_href = href,
                   r_chapterTitle = (case getChapterFromCfi h (cfiFromRange h ci 0 4 7) of
                                       None \<Rightarrow> [] | Some t \<Rightarrow> t),
                   r_chapterIndex = ci\<rparr>,
                 \<lparr>r_cfi = cfiFromRange h ci 0 9 12,
                   r_excerpt = utf16 ''...'' @ utf16 ''the cats category'' @ utf16 ''...'',
                   r_href = href,
                   r_chapterTitle = (case getChapterFromCfi h (cfiFromRange h ci 0 9 12) of
                                       None \<Rightarrow> [] | Some t \<Rightarrow> t),
                   r_chapterIndex = ci\<rparr>])
     \<and> occurrences (utf16 ''the cats category'') (utf16 ''cat'') = [4, 9]
     \<and> occurrences (utf16 ''aaa'') (utf16 ''aa'') = [0, 1]"
proof -
  let ?t = "toLowerCase h (concat nodes)"
  let ?body = "matchResult h (si_href item) ci nodes ?t q"
  have run: "searchChapter h q ci item = Some (List.map_filter ?body (occurrences ?t q))"
    using assms by (rule searchChapter_occurrences)
  have within: "\<forall>p. ?body p \<noteq> None \<longleftrightarrow> withinOneNode nodes q p"
    using matchResult_within [OF assms(1)] by blast
  have occ: "\<forall>p. p \<in> set (occurrences ?t q)
              \<longleftrightarrow> p + length q \<le> length ?t \<and> take (length q) (drop p ?t) = q"
  proof (intro allI iffI)
    fix p assume p: "p \<in> set (occurrences ?t q)"
    from occurrence_bound [OF assms(1) p] p
    show "p + length q \<le> length ?t \<and> take (length q) (drop p ?t) = q"
      by (simp add: occurrences_iff)
  next
    fix p assume "p + length q \<le> length ?t \<and> take (length q) (drop p ?t) = q"
    then show "p \<in> set (occurrences ?t q)"
      by (simp add: occurrences_iff)
  qed
  have single: "length nodes = 1 \<and> length ?t \<le> length (concat nodes) \<longrightarrow>
           map_option length (searchChapter h q ci item) = Some (length (occurrences ?t q))"
  proof
    assume a: "length nodes = 1 \<and> length ?t \<le> length (concat nodes)"
    then obtain node where nodes: "nodes = [node]"
      by (cases nodes) auto
    with a have le: "length ?t \<le> length node" by simp
    have "\<forall>p \<in> set (occurrences ?t q). withinOneNode nodes q p"
      unfolding nodes using single_node_within [OF assms(1) _ le [unfolded nodes]] by blast
    with within have "\<forall>p \<in> set (occurrences ?t q). ?body p \<noteq> None" by blast
    then have "length (List.map_filter ?body (occurrences ?t q)) = length (occurrences ?t q)"
      by (rule map_filter_all_Some)
    with run show "map_option length (searchChapter h q ci item) = Some (length (occurrences ?t q))"
      by simp
  qed
  have srt: "sorted (occurrences ?t q)" and dst: "distinct (occurrences ?t q)"
    using occurrences_sorted [of ?t q] by (rule conjunct1, rule conjunct2)
  have scen: "toLowerCase h (utf16 ''the cats category'') = utf16 ''the cats category'' \<longrightarrow>
         searchChapter h (utf16 ''cat'') ci
           \<lparr>si_href = href, si_document = Some [utf16 ''the cats category'']\<rparr>
         = Some [\<lparr>r_cfi = cfiFromRange h ci 0 4 7,
                   r_excerpt = utf16 ''...'' @ utf16 ''the cats category'' @ utf16 ''...'',
                   r_href = href,
                   r_chapterTitle = (case getChapterFromCfi h (cfiFromRange h ci 0 4 7) of
                                       None \<Rightarrow> [] | Some t \<Rightarrow> t),
                   r_chapterIndex = ci\<rparr>,
                 \<lparr>r_cfi = cfiFromRange h ci 0 9 12,
                   r_excerpt = utf16 ''...'' @ utf16 ''the cats category'' @ utf16 ''...'',
                   r_href = href,
                   r_chapterTitle = (case getChapterFromCfi h (cfiFromRange h ci 0 9 12) of
                                       None \<Rightarrow> [] | Some t \<Rightarrow> t),
                   r_chapterIndex = ci\<rparr>]"
    by (rule impI) (rule scenario_results)
  show ?thesis
    using run within occ srt dst single scen scenario_occurrences overlapping_occurrences
    by (intro conjI) assumption+
qed

theorem searchChapter_reports_matches_within_one_node_witness:
  "utf16 ''cat'' \<noteq> []
   \<and> si_document split_chapter = Some [utf16 ''the c'', utf16 ''ats category'']
   \<and> searchChapter example_host (utf16 ''cat'') 0 split_chapter
       = Some (List.map_filter
                 (matchResult example_host (si_href split_chapter) 0
                    [utf16 ''the c'', utf16 ''ats category'']
                    (toLowerCase example_host (concat [utf16 ''the c'', utf16 ''ats category'']))
                    (utf16 ''cat''))
                 (occurrences
                    (toLowerCase example_host (concat [utf16 ''the c'', utf16 ''ats category'']))
                    (utf16 ''cat'')))
   \<and> \<not> withinOneNode [utf16 ''the c'', utf16 ''ats category''] (utf16 ''cat'') 4
   \<and> withinOneNode [utf16 ''the c'', utf16 ''ats category''] (utf16 ''cat'') 9
   \<and> toLowerCase example_host (utf16 ''the cats category'') = utf16 ''the cats category''
   \<and> map_option length
        (searchChapter example_host (utf16 ''cat'') 0
           \<lparr>si_href = ''ch1.xhtml'', si_document = Some [utf16 ''the cats category'']\<rparr>) = Some 2"
proof -
  have h1: "utf16 ''cat'' \<noteq> []" by (simp add: utf16_def)
  have h2: "si_document split_chapter = Some [utf16 ''the c'', utf16 ''ats category'']"
    by (simp add: split_chapter_def)
  have w: "\<not> withinOneNode [utf16 ''the c'', utf16 ''ats category''] (utf16 ''cat'') 4
           \<and> withinOneNode [utf16 ''the c'', utf16 ''ats category''] (utf16 ''cat'') 9"
    by (simp add: withinOneNode_def startOf_def lessThan_Suc utf16_def)
  have low: "toLowerCase example_host (utf16 ''the cats category'') = utf16 ''the cats category''"
    by code_simp
  note inst = searchChapter_reports_matches_within_one_node
               [OF h1 h2, of example_host 0 "''ch1.xhtml''"]
  have run: "searchChapter example_host (utf16 ''cat'') 0 split_chapter
       = Some (List.map_filter
                 (matchResult example_host (si_href split_chapter) 0
                    [utf16 ''the c'', utf16 ''ats category'']
                    (toLowerCase example_host (concat [utf16 ''the c'', utf16 ''ats category'']))
                    (utf16 ''cat''))
                 (occurrences
                    (toLowerCase example_host (concat [utf16 ''the c'', utf16 ''ats category'']))
                    (utf16 ''cat'')))"
    using inst by (rule conjunct1)
  have two: "map_option length
        (searchChapter example_host (utf16 ''cat'') 0
           \<lparr>si_href = ''ch1.xhtml'', si_document = Some [utf16 ''the cats category'']\<rparr>) = Some 2"
    using inst low by simp
  show ?thesis
    using h1 h2 run w low two by (intro conjI) (assumption | erule conjunct1 | erule conjunct2)+
qed

text \<open>
  Claim C3, as stated, fails: the published order follows the order in which the
  chapter tasks push. With a match in each of two chapters and the second chapter's
  task pushing first, the published chapter indices are 1, 0.
\<close>

theorem searchBook_completion_order_counterexample:
  "map_option (\<lambda>s'. map r_chapterIndex (searchResults s'))
     (searchBook example_host [1, 0] (utf16 ''cat'') (Some example_spine) initial_search)
     = Some [1, 0]
   \<and> \<not> sorted [1, 0 :: nat]"
  using example_search [OF example_queries(1)] by (simp add: utf16_def)

text \<open>
  Claim C3, amended. For every query that is not empty and not blank after
  trimming and lower-casing, every document with at least one chapter and every
  order in which the chapter tasks push, the search ends and publishes a sequence
  in which the results of each chapter appear in the order of their occurrences in
  that chapter's text (the results of chapter \<open>k\<close>, taken out of the published
  sequence, are exactly that chapter's results in occurrence order), and which
  holds results of the document's chapters only. Across chapters the sequence
  follows the pushes: when the schedule names each chapter task once for every
  result it has, the chapter indices of the published sequence are the schedule
  itself, so the sequence is sorted by chapter index exactly when the pushes come
  in ascending chapter order, as they do when the tasks push one after the other
  in spine order.
\<close>

theorem searchBook_order_within_chapters:
  assumes "query \<noteq> []" and "toLowerCase h (trim query) \<noteq> []" and "spineItems \<noteq> []"
  shows "\<exists>s'. searchBook h schedule query (Some spineItems) s = Some s'
     \<and> (\<forall>k < length spineItems.
           filter (\<lambda>r. r_chapterIndex r = k) (searchResults s')
             = chapterResults h (toLowerCase h (trim query)) k (spineItems ! k))
     \<and> (\<forall>r \<in> set (searchResults s'). r_chapterIndex r < length spineItems)
     \<and> (complete_schedule schedule
           (map (\<lambda>(k, item). chapterResults h (toLowerCase h (trim query)) k item)
                (enumerate 0 spineItems)) \<longrightarrow>
           map r_chapterIndex (searchResults s') = schedule
           \<and> (sorted (map r_chapterIndex (searchResults s')) \<longleftrightarrow> sorted schedule))
     \<and> (schedule = [] \<longrightarrow> sorted (map r_chapterIndex (searchResults s')))"
proof -
  let ?q = "toLowerCase h (trim query)"
  let ?pushes = "map (\<lambda>(chapterIndex, item). chapterResults h ?q chapterIndex item)
                     (enumerate 0 spineItems)"
  let ?results = "publish schedule ?pushes []"
  let ?s' = "s\<lparr>isSearching := True, searchResults := ?results,
               currentSearchResultIndex := (if length ?results > 0 then 0 else -1),
               isSearching := False\<rparr>"
  have run: "searchBook h schedule query (Some spineItems) s = Some ?s'"
    using assms by (simp add: searchBook_result)
  have tg: "tagged r_chapterIndex ?pushes" by (rule tagged_pushes)
  have per: "filter (\<lambda>r. r_chapterIndex r = k) ?results = chapterResults h ?q k (spineItems ! k)"
    if "k < length spineItems" for k
    using that by (simp add: publish_filter [OF tg] nth_enumerate_eq)
  from sorted_concat_tagged [OF tg]
  have srt: "sorted (map r_chapterIndex (concat ?pushes))"
    and bound: "\<forall>r \<in> set (concat ?pushes). r_chapterIndex r < length spineItems"
    by simp_all
  have inb: "\<forall>r \<in> set ?results. r_chapterIndex r < length spineItems"
    using bound by (simp only: set_publish) simp
  have seq: "schedule = [] \<longrightarrow> sorted (map r_chapterIndex ?results)"
    using srt by (auto simp only: publish_unscheduled)
  have ord: "complete_schedule schedule ?pushes \<longrightarrow>
           map r_chapterIndex ?results = schedule
           \<and> (sorted (map r_chapterIndex ?results) \<longleftrightarrow> sorted schedule)"
    using publish_complete [OF tg, of schedule "[]"] by simp
  from per inb seq ord have
    "(\<forall>k < length spineItems.
           filter (\<lambda>r. r_chapterIndex r = k) (searchResults ?s')
             = chapterResults h ?q k (spineItems ! k))
     \<and> (\<forall>r \<in> set (searchResults ?s'). r_chapterIndex r < length spineItems)
     \<and> (complete_schedule schedule ?pushes \<longrightarrow>
           map r_chapterIndex (searchResults ?s') = schedule
           \<and> (sorted (map r_chapterIndex (searchResults ?s')) \<longleftrightarrow> sorted schedule))
     \<and> (schedule = [] \<longrightarrow> sorted (map r_chapterIndex (searchResults ?s')))"
    by simp
  with run show ?thesis by blast
qed

theorem searchBook_order_within_chapters_witness:
  "utf16 ''Cat '' \<noteq> [] \<and> toLowerCase example_host (trim (utf16 ''Cat '')) \<noteq> []
   \<and> example_spine \<noteq> []
   \<and> complete_schedule [1, 0]
        (map (\<lambda>(k, item). chapterResults example_host (utf16 ''cat'') k item)
             (enumerate 0 example_spine))
   \<and> map_option (\<lambda>s'. filter (\<lambda>r. r_chapterIndex r = 1) (searchResults s'))
        (searchBook example_host [1, 0] (utf16 ''Cat '') (Some example_spine) initial_search)
      = Some (chapterResults example_host (utf16 ''cat'') 1 (example_spine ! 1))
   \<and> map_option (\<lambda>s'. map r_chapterIndex (searchResults s'))
        (searchBook example_host [1, 0] (utf16 ''Cat '') (Some example_spine) initial_search)
      = Some [1, 0]"
proof -
  note q = example_queries(2)
  have h0: "utf16 ''Cat '' \<noteq> []" by (simp add: utf16_def)
  have h1: "toLowerCase example_host (trim (utf16 ''Cat '')) \<noteq> []"
    unfolding q by (simp add: utf16_def)
  have h2: "example_spine \<noteq> []" by (simp add: example_spine_def)
  have k: "1 < length example_spine" by (simp add: example_spine_def)
  note cs = example_schedule
  from searchBook_order_within_chapters [OF h0 h1 h2, of "[1, 0]" initial_search]
  obtain s' where all:
    "searchBook example_host [1, 0] (utf16 ''Cat '') (Some example_spine) initial_search = Some s'
     \<and> (\<forall>k < length example_spine.
           filter (\<lambda>r. r_chapterIndex r = k) (searchResults s')
             = chapterResults example_host (toLowerCase example_host (trim (utf16 ''Cat ''))) k
                 (example_spine ! k))
     \<and> (\<forall>r \<in> set (searchResults s'). r_chapterIndex r < length example_spine)
     \<and> (complete_schedule [1, 0]
           (map (\<lambda>(k, item). chapterResults example_host
                                (toLowerCase example_host (trim (utf16 ''Cat ''))) k item)
                (enumerate 0 example_spine)) \<longrightarrow>
           map r_chapterIndex (searchResults s') = [1, 0]
           \<and> (sorted (map r_chapterIndex (searchResults s')) \<longleftrightarrow> sorted [1, 0 :: nat]))
     \<and> (([1, 0] :: nat list) = [] \<longrightarrow> sorted (map r_chapterIndex (searchResults s')))" ..
  note run = conjunct1 [OF all]
  note per = conjunct1 [OF conjunct2 [OF all]]
  note ord = conjunct1 [OF conjunct2 [OF conjunct2 [OF conjunct2 [OF all]]]]
  have f: "filter (\<lambda>r. r_chapterIndex r = 1) (searchResults s')
             = chapterResults example_host (utf16 ''cat'') 1 (example_spine ! 1)"
    by (rule mp [OF spec [OF per [unfolded q], of 1] k])
  have o: "map r_chapterIndex (searchResults s') = [1, 0]"
    by (rule conjunct1 [OF mp [OF ord [unfolded q] cs]])
  have c5: "map_option (\<lambda>s'. filter (\<lambda>r. r_chapterIndex r = 1) (searchResults s'))
        (searchBook example_host [1, 0] (utf16 ''Cat '') (Some example_spine) initial_search)
      = Some (chapterResults example_host (utf16 ''cat'') 1 (example_spine ! 1))"
    by (simp only: run option.map f)
  have c6: "map_option (\<lambda>s'. map r_chapterIndex (searchResults s'))
        (searchBook example_host [1, 0] (utf16 ''Cat '') (Some example_spine) initial_search)
      = Some [1, 0]"
    by (simp only: run option.map o)
  show ?thesis
    using h0 h1 h2 cs c5 c6 by (intro conjI) assumption+
qed

end
